theory Spec2Isabelle
  imports Main "HOL-Library.Sublist"
begin

section \<open>Strings\<close>

text \<open>
  A JavaScript string is modelled as a \<^typ>\<open>string\<close>: a list of code units, restricted to
  the code units below 256. \<open>s.startsWith(p)\<close> is \<^term>\<open>prefix p s\<close> and
  \<open>s.includes(p)\<close> is \<^term>\<open>sublist p s\<close> (a contiguous occurrence).
\<close>

definition newline :: string where
  "newline = [CHR 0x0A]"

definition is_space :: "char \<Rightarrow> bool" where
  \<comment> \<open>The white space and line terminators of \<open>String.prototype.trim\<close> below 256:
      TAB, LF, VT, FF, CR, SP and NBSP.\<close>
  "is_space c = (c \<in> set [CHR 0x09, CHR 0x0A, CHR 0x0B, CHR 0x0C, CHR 0x0D, CHR 0x20, CHR 0xA0])"

definition trim :: "string \<Rightarrow> string" where
  "trim s = rev (dropWhile is_space (rev (dropWhile is_space s)))"

definition is_word_char :: "char \<Rightarrow> bool" where
  \<comment> \<open>The class \<open>\w\<close> of a regular expression without the \<open>u\<close> and \<open>i\<close> flags.\<close>
  "is_word_char c =
     (let n = (of_char c :: nat)
      in (48 \<le> n \<and> n \<le> 57) \<or> (65 \<le> n \<and> n \<le> 90) \<or> (97 \<le> n \<and> n \<le> 122) \<or> n = 95)"

definition toLowerChar :: "char \<Rightarrow> char" where
  \<comment> \<open>\<open>toLowerCase\<close> on one code unit below 256: A-Z, and the Latin-1 capitals
      0xC0-0xDE without the multiplication sign 0xD7.\<close>
  "toLowerChar c =
     (let n = (of_char c :: nat)
      in if (65 \<le> n \<and> n \<le> 90) \<or> (192 \<le> n \<and> n \<le> 222 \<and> n \<noteq> 215)
         then char_of (n + 32) else c)"

definition toLowerCase :: "string \<Rightarrow> string" where
  "toLowerCase s = map toLowerChar s"

fun join :: "string \<Rightarrow> string list \<Rightarrow> string" where
  \<comment> \<open>\<open>Array.prototype.join\<close>\<close>
  "join sep [] = []"
| "join sep [x] = x"
| "join sep (x # y # ys) = x @ sep @ join sep (y # ys)"

section \<open>Regular expressions of the shape head, lazy body, closing literal\<close>

text \<open>
  The two searches of the program, \<open>/<think>([\s\S]*?)<\/think>/\<close> and
  \<open>/```(\w+)?\n([\s\S]*?)```/\<close>, have the same shape: a head matched at the start
  position, then the lazy \<open>[\s\S]*?\<close>, which takes the shortest run of any characters
  that is followed by the closing literal, then that literal. A search without the
  \<open>g\<close> flag tries the start positions from left to right and keeps the first match.
\<close>

fun lazy_until :: "string \<Rightarrow> string \<Rightarrow> (string \<times> string) option" where
  \<comment> \<open>\<open>([\s\S]*?)lit\<close> at the start of the text: the captured run and the text after
      the literal.\<close>
  "lazy_until lit [] = (if lit = [] then Some ([], []) else None)"
| "lazy_until lit (c # cs) =
     (if prefix lit (c # cs) then Some ([], drop (length lit) (c # cs))
      else map_option (\<lambda>(cap, rest). (c # cap, rest)) (lazy_until lit cs))"

definition match_here ::
  "(string \<Rightarrow> ('g \<times> string) option) \<Rightarrow> string \<Rightarrow> string \<Rightarrow> ('g \<times> string \<times> string) option" where
  \<comment> \<open>one attempt at a fixed start position: the head's group, the lazy capture and the
      text after the match\<close>
  "match_here hd_match lit s =
     (case hd_match s of
        None \<Rightarrow> None
      | Some (g, r) \<Rightarrow>
          (case lazy_until lit r of
             None \<Rightarrow> None
           | Some (cap, rest) \<Rightarrow> Some (g, cap, rest)))"

fun regex_search ::
  "(string \<Rightarrow> ('g \<times> string) option) \<Rightarrow> string \<Rightarrow> string
     \<Rightarrow> (string \<times> 'g \<times> string \<times> string) option" where
  \<comment> \<open>\<open>text.match(re)\<close>: the text before the match, the head's group, the lazy capture,
      the text after the match; \<open>None\<close> is \<open>null\<close>.\<close>
  "regex_search hd_match lit [] =
     map_option (\<lambda>(g, cap, rest). ([], g, cap, rest)) (match_here hd_match lit [])"
| "regex_search hd_match lit (c # cs) =
     (case match_here hd_match lit (c # cs) of
        Some (g, cap, rest) \<Rightarrow> Some ([], g, cap, rest)
      | None \<Rightarrow>
          map_option (\<lambda>(pre, g, cap, rest). (c # pre, g, cap, rest))
            (regex_search hd_match lit cs))"

definition literal_head :: "string \<Rightarrow> string \<Rightarrow> (unit \<times> string) option" where
  \<comment> \<open>a head that is a literal, with no group\<close>
  "literal_head lit s = (if prefix lit s then Some ((), drop (length lit) s) else None)"

section \<open>services/geminiService.ts: extractThinking\<close>

record split =
  thinking :: string
  content :: string

definition think_open :: string where
  "think_open = ''<think>''"

definition think_close :: string where
  "think_close = ''</think>''"

definition extractThinking :: "string \<Rightarrow> split" where
  \<comment> \<open>\<open>text.replace(re, '')\<close> with the same expression removes the match found by
      \<open>text.match(re)\<close>.\<close>
  "extractThinking text =
     (case regex_search (literal_head think_open) think_close text of
        Some (pre, _, cap, rest) \<Rightarrow> \<lparr>thinking = trim cap, content = trim (pre @ rest)\<rparr>
      | None \<Rightarrow> \<lparr>thinking = [], content = text\<rparr>)"

section \<open>types.ts\<close>

datatype StepStatus = PENDING | PROCESSING | COMPLETED | FAILED

text \<open>
  \<open>WorkflowStep\<close>. The optional fields \<open>result\<close> and \<open>thinking\<close> are options, \<open>None\<close> for
  \<open>undefined\<close>. The field \<open>id\<close> is named \<open>step_id\<close> and the field \<open>thinking\<close> is named
  \<open>step_thinking\<close>, the plain names being taken.
\<close>

record WorkflowStep =
  step_id :: string
  description :: string
  status :: StepStatus
  result :: "string option"
  step_thinking :: "string option"

record AgentState =
  isAnalyzing :: bool
  isExecuting :: bool
  currentStepId :: "string option"

datatype category = CODE | TEXT | IMAGE | PDF | DOCUMENT | UNKNOWN

definition truthy :: "string option \<Rightarrow> bool" where
  \<comment> \<open>an optional string in a boolean position: \<open>undefined\<close> and \<open>""\<close> are false\<close>
  "truthy r = (case r of None \<Rightarrow> False | Some t \<Rightarrow> t \<noteq> [])"

definition or_else :: "string option \<Rightarrow> string \<Rightarrow> string" where
  \<comment> \<open>\<open>r || d\<close> on an optional string\<close>
  "or_else r d = (case r of None \<Rightarrow> d | Some t \<Rightarrow> if t = [] then d else t)"

section \<open>services/geminiService.ts: executeWorkflowStep\<close>

definition dquote :: string where
  "dquote = [CHR 0x22]"

definition history_entry :: "WorkflowStep \<Rightarrow> string" where
  \<comment> \<open>the template of line 114; a template prints \<open>undefined\<close> as that word\<close>
  "history_entry s =
     ''PREVIOUS STEP: '' @ dquote @ description s @ dquote @ newline
       @ ''RESULT: '' @ (case result s of None \<Rightarrow> ''undefined'' | Some r \<Rightarrow> r) @ newline"

definition history_separator :: string where
  "history_separator = newline @ ''---'' @ newline"

definition contributes :: "WorkflowStep \<Rightarrow> bool" where
  \<comment> \<open>the filter of line 113: \<open>s.status === StepStatus.COMPLETED && s.result\<close>\<close>
  "contributes s = (status s = COMPLETED \<and> truthy (result s))"

definition historyContext :: "WorkflowStep list \<Rightarrow> string" where
  "historyContext previousSteps =
     join history_separator (map history_entry (filter contributes previousSteps))"

definition contextSection :: "WorkflowStep list \<Rightarrow> string" where
  \<comment> \<open>what the prompt holds between its two context rules:
      \<open>historyContext || "No previous steps executed yet."\<close>\<close>
  "contextSection previousSteps =
     (if historyContext previousSteps = [] then ''No previous steps executed yet.''
      else historyContext previousSteps)"

text \<open>
  What the streamed model call does: the \<open>delta.content\<close> of each chunk received
  (\<open>None\<close> when the chunk has none), and the value thrown by the call or by the stream
  after these chunks, if any. \<open>Error m\<close> is an instance of \<open>Error\<close> with message \<open>m\<close>,
  \<open>Thrown\<close> any other value.
\<close>

datatype thrown = Error string | Thrown

record model_stream =
  deltas :: "string option list"
  failure :: "thrown option"

record step_output =
  out_result :: string
  out_thinking :: string

definition executeWorkflowStep :: "model_stream \<Rightarrow> step_output" where
  \<comment> \<open>the \<open>try\<close> block of lines 151-188; the prompt goes to the model only, whose reply
      is the stream\<close>
  "executeWorkflowStep stream =
     (case failure stream of
        Some e \<Rightarrow>
          \<lparr>out_result = ''Error executing step: ''
              @ (case e of Error m \<Rightarrow> m | Thrown \<Rightarrow> ''Unknown error''),
           out_thinking = []\<rparr>
      | None \<Rightarrow>
          (let fullResponse = concat (map (\<lambda>d. or_else d []) (deltas stream));
               sp = extractThinking fullResponse
           in \<lparr>out_result = content sp, out_thinking = thinking sp\<rparr>))"

section \<open>services/geminiService.ts: generateWorkflowPlan\<close>

definition array_match :: "string \<Rightarrow> string option" where
  \<comment> \<open>\<open>response.match(/\[[\s\S]*\]/)\<close>: from the first \<open>[\<close> to the last \<open>]\<close> after it
      (the star is greedy), \<open>None\<close> when no \<open>]\<close> follows the first \<open>[\<close>.\<close>
  "array_match response =
     (case dropWhile (\<lambda>c. c \<noteq> CHR ''['') response of
        [] \<Rightarrow> None
      | b # body \<Rightarrow>
          if CHR '']'' \<in> set body
          then Some (b # rev (dropWhile (\<lambda>c. c \<noteq> CHR '']'') (rev body)))
          else None)"

text \<open>
  The plan call: it throws, or it returns the message content (\<open>content || ""\<close>).
  \<open>JSON.parse\<close> is a parameter of the model: \<open>None\<close> is its \<open>SyntaxError\<close>, and its
  value is an array of strings, as the return type of \<open>generateWorkflowPlan\<close> says.
\<close>

datatype plan_reply = CallFails thrown | Reply string

datatype plan_error = CallError thrown | SyntaxError

definition generateWorkflowPlan ::
  "(string \<Rightarrow> string list option) \<Rightarrow> plan_reply \<Rightarrow> plan_error + string list" where
  \<comment> \<open>\<open>Inl\<close> is the error rethrown by the \<open>catch\<close> of lines 97-100\<close>
  "generateWorkflowPlan json_parse reply =
     (case reply of
        CallFails e \<Rightarrow> Inl (CallError e)
      | Reply response \<Rightarrow>
          (case array_match response of
             None \<Rightarrow> Inr [''Failed to generate plan.'']
           | Some m \<Rightarrow>
               (case json_parse m of
                  None \<Rightarrow> Inl SyntaxError
                | Some plan \<Rightarrow> Inr plan)))"

section \<open>utils/fileUtils.ts: getFileCategory\<close>

fun split_on :: "char \<Rightarrow> string \<Rightarrow> string list" where
  \<comment> \<open>\<open>s.split(d)\<close> for a separator of one character: never the empty list\<close>
  "split_on d [] = [[]]"
| "split_on d (c # cs) =
     (if c = d then [] # split_on d cs
      else (case split_on d cs of
              [] \<Rightarrow> [[c]]
            | x # xs \<Rightarrow> (c # x) # xs))"

definition pop :: "'a list \<Rightarrow> 'a option" where
  \<comment> \<open>\<open>Array.prototype.pop\<close>, its value only: \<open>undefined\<close> on the empty array\<close>
  "pop xs = (if xs = [] then None else Some (last xs))"

definition file_ext :: "string \<Rightarrow> string option" where
  \<comment> \<open>\<open>filename.split('.').pop()?.toLowerCase()\<close>\<close>
  "file_ext filename = map_option toLowerCase (pop (split_on (CHR ''.'') filename))"

definition code_exts :: "string list" where
  "code_exts = [''py'', ''js'', ''ts'', ''tsx'', ''c'', ''cpp'', ''h'', ''java'', ''go'', ''rs'',
                ''html'', ''css'', ''json'', ''md'']"

definition doc_exts :: "string list" where
  "doc_exts = [''doc'', ''docx'', ''ppt'', ''pptx'', ''txt'']"

definition getFileCategory :: "string \<Rightarrow> string \<Rightarrow> category" where
  "getFileCategory filename type =
     (let ext = file_ext filename
      in if or_else ext [] \<in> set code_exts then CODE
         else if type = ''application/pdf'' \<or> ext = Some ''pdf'' then PDF
         else if prefix ''image/'' type then IMAGE
         else if or_else ext [] \<in> set doc_exts \<or> sublist ''text'' type
                   \<or> sublist ''document'' type then DOCUMENT
         else UNKNOWN)"

section \<open>The step list component: extractCode and isPotentialReport\<close>

definition fence :: string where
  "fence = [CHR 0x60, CHR 0x60, CHR 0x60]"

definition fence_head :: "string \<Rightarrow> (string option \<times> string) option" where
  \<comment> \<open>the head \<open>```(\w+)?\n\<close>: the fence, the longest run of word characters (the group,
      unset when the run is empty), then a line feed. A shorter run is followed by a
      word character, not by the line feed, so backtracking into the group finds no
      other match.\<close>
  "fence_head s =
     (if prefix fence s
      then (let r = drop 3 s; w = takeWhile is_word_char r
            in case dropWhile is_word_char r of
                 [] \<Rightarrow> None
               | c # rest \<Rightarrow>
                   if c = CHR 0x0A then Some (if w = [] then None else Some w, rest)
                   else None)
      else None)"

record code_data =
  language :: string
  code :: string

definition extractCode :: "string \<Rightarrow> code_data option" where
  "extractCode markdown =
     (case regex_search fence_head fence markdown of
        Some (_, lang, body, _) \<Rightarrow> Some \<lparr>language = or_else lang ''txt'', code = body\<rparr>
      | None \<Rightarrow> None)"

definition codeData :: "WorkflowStep \<Rightarrow> code_data option" where
  \<comment> \<open>\<open>step.result ? extractCode(step.result) : null\<close>\<close>
  "codeData step = (if truthy (result step) then extractCode (or_else (result step) []) else None)"

definition isPotentialReport :: "WorkflowStep \<Rightarrow> bool" where
  "isPotentialReport step =
     (codeData step = None \<and> status step = COMPLETED \<and>
       (sublist ''report'' (toLowerCase (description step))
        \<or> sublist ''document'' (toLowerCase (description step))
        \<or> sublist ''write'' (toLowerCase (description step))
        \<or> sublist ''summar'' (toLowerCase (description step))
        \<or> (truthy (result step) \<and> length (or_else (result step) []) > 500)))"

section \<open>App.tsx: handleCreateWorkflow\<close>

record 'f app =
  files :: "'f list"
  workflowSteps :: "WorkflowStep list"
  agentState :: AgentState
  error :: "string option"

definition newSteps :: "(nat \<Rightarrow> string) \<Rightarrow> string list \<Rightarrow> WorkflowStep list" where
  \<comment> \<open>\<open>planStrings.map(...)\<close>; \<open>new_id i\<close> is the identifier drawn for the element at
      index \<open>i\<close> (\<open>Math.random\<close> is a parameter of the model)\<close>
  "newSteps new_id planStrings =
     map (\<lambda>(i, desc). \<lparr>step_id = new_id i, description = desc, status = PENDING,
                         result = None, step_thinking = None\<rparr>)
       (enumerate 0 planStrings)"

definition handleCreateWorkflow_begin :: "'f app \<Rightarrow> 'f app" where
  \<comment> \<open>lines 71-73, before the plan call is awaited\<close>
  "handleCreateWorkflow_begin a =
     a\<lparr>agentState := (agentState a)\<lparr>isAnalyzing := True\<rparr>, error := None, workflowSteps := []\<rparr>"

definition handleCreateWorkflow_end ::
  "(nat \<Rightarrow> string) \<Rightarrow> plan_error + string list \<Rightarrow> 'f app \<Rightarrow> 'f app" where
  \<comment> \<open>lines 75-92, once the plan call has settled\<close>
  "handleCreateWorkflow_end new_id outcome a =
     (case outcome of
        Inr planStrings \<Rightarrow>
          a\<lparr>workflowSteps := newSteps new_id planStrings,
            agentState := (agentState a)\<lparr>isAnalyzing := False, isExecuting := True\<rparr>\<rparr>
      | Inl e \<Rightarrow>
          a\<lparr>error := Some ''Failed to generate a workflow. Please check your API key or try again.'',
            agentState := (agentState a)\<lparr>isAnalyzing := False\<rparr>\<rparr>)"

definition handleCreateWorkflow ::
  "(nat \<Rightarrow> string) \<Rightarrow> (string \<Rightarrow> string list option) \<Rightarrow> plan_reply \<Rightarrow> 'f app \<Rightarrow> 'f app" where
  "handleCreateWorkflow new_id json_parse reply a =
     (if files a = [] then a
      else handleCreateWorkflow_end new_id (generateWorkflowPlan json_parse reply)
             (handleCreateWorkflow_begin a))"

definition idle :: AgentState where
  \<comment> \<open>the initial value of the agent state, lines 11-15\<close>
  "idle = \<lparr>isAnalyzing = False, isExecuting = False, currentStepId = None\<rparr>"

section \<open>App.tsx: the auto-executor\<close>

fun findIndex :: "('a \<Rightarrow> bool) \<Rightarrow> 'a list \<Rightarrow> nat option" where
  \<comment> \<open>\<open>Array.prototype.findIndex\<close>; \<open>None\<close> is \<open>-1\<close>\<close>
  "findIndex P [] = None"
| "findIndex P (x # xs) = (if P x then Some 0 else map_option Suc (findIndex P xs))"

definition mark_processing :: "string \<Rightarrow> WorkflowStep list \<Rightarrow> WorkflowStep list" where
  \<comment> \<open>the updater of lines 33-35\<close>
  "mark_processing nid prev =
     map (\<lambda>s. if step_id s = nid then s\<lparr>status := PROCESSING\<rparr> else s) prev"

definition mark_completed :: "string \<Rightarrow> step_output \<Rightarrow> WorkflowStep list \<Rightarrow> WorkflowStep list" where
  \<comment> \<open>the updater of lines 43-50\<close>
  "mark_completed nid out prev =
     map (\<lambda>s. if step_id s = nid
               then s\<lparr>status := COMPLETED, result := Some (out_result out),
                      step_thinking := Some (out_thinking out)\<rparr>
               else s) prev"

definition mark_failed :: "string \<Rightarrow> WorkflowStep list \<Rightarrow> WorkflowStep list" where
  \<comment> \<open>the updater of lines 53-59\<close>
  "mark_failed nid prev =
     map (\<lambda>s. if step_id s = nid
               then s\<lparr>status := FAILED, result := Some ''Failed to execute step.''\<rparr>
               else s) prev"

text \<open>
  A call of \<open>executeWorkflowStep\<close> that \<open>executeNextStep\<close> awaits: the step it runs and
  the step list it was given as \<open>previousSteps\<close>. The awaited promise settles later, as
  \<open>Resolved\<close> with the executor's output or as \<open>Rejected\<close>; \<open>executeNextStep\<close> handles
  both (lines 38-62).
\<close>

record call =
  target :: WorkflowStep
  previousSteps :: "WorkflowStep list"

datatype call_outcome = Resolved step_output | Rejected

definition await_executeWorkflowStep :: "model_stream \<Rightarrow> call_outcome" where
  \<comment> \<open>how a call of \<open>executeWorkflowStep\<close> settles when the model call behaves as the
      stream says: its \<open>catch\<close> returns, so the promise is never rejected\<close>
  "await_executeWorkflowStep stream = Resolved (executeWorkflowStep stream)"

record 'f sys =
  app :: "'f app"
  inflight :: "call list"

text \<open>
  The effect of lines 19-66 runs after a render in which one of its dependencies
  \<open>[workflowSteps, agentState.isExecuting, files]\<close> has changed; every
  \<open>setWorkflowSteps\<close> of the program installs a new array. The effect has no clean-up
  and tests nothing but \<open>isExecuting\<close> and the statuses. An event is one run of the
  effect up to its \<open>await\<close>, or the settling of one awaited call and the rest of that
  \<open>executeNextStep\<close>. The updates made within one event are applied together, as
  React batches them. Running the effect where React would not (no dependency has
  changed since its last run) changes nothing, so the model lets it run at any time.
\<close>

datatype event = EffectRuns | CallSettles nat call_outcome

definition effect_runs :: "'f sys \<Rightarrow> 'f sys" where
  \<comment> \<open>lines 20-40, up to the \<open>await\<close>\<close>
  "effect_runs s =
     (let a = app s
      in if \<not> isExecuting (agentState a) then s
         else (case findIndex (\<lambda>st. status st = PENDING) (workflowSteps a) of
                 None \<Rightarrow>
                   s\<lparr>app := a\<lparr>agentState :=
                                (agentState a)\<lparr>isExecuting := False, currentStepId := None\<rparr>\<rparr>\<rparr>
               | Some nextStepIndex \<Rightarrow>
                   \<comment> \<open>the index found is within the list\<close>
                   (let nextStep = workflowSteps a ! nextStepIndex
                    in s\<lparr>app := a\<lparr>workflowSteps :=
                                     mark_processing (step_id nextStep) (workflowSteps a),
                                   agentState :=
                                     (agentState a)\<lparr>currentStepId := Some (step_id nextStep)\<rparr>\<rparr>,
                         inflight := inflight s
                           @ [\<lparr>target = nextStep, previousSteps = workflowSteps a\<rparr>]\<rparr>)))"

definition call_settles :: "nat \<Rightarrow> call_outcome \<Rightarrow> 'f sys \<Rightarrow> 'f sys" where
  \<comment> \<open>lines 40-62, from the \<open>await\<close> on, for the awaited call at position \<open>k\<close>; the
      updaters apply to the state of that moment\<close>
  "call_settles k outcome s =
     (if k < length (inflight s)
      then (let a = app s;
                nid = step_id (target (inflight s ! k));
                others = take k (inflight s) @ drop (Suc k) (inflight s)
            in case outcome of
                 Resolved out \<Rightarrow>
                   s\<lparr>app := a\<lparr>workflowSteps := mark_completed nid out (workflowSteps a)\<rparr>,
                     inflight := others\<rparr>
               | Rejected \<Rightarrow>
                   s\<lparr>app := a\<lparr>workflowSteps := mark_failed nid (workflowSteps a),
                               agentState := (agentState a)\<lparr>isExecuting := False\<rparr>\<rparr>,
                     inflight := others\<rparr>)
      else s)"

fun fire :: "event \<Rightarrow> 'f sys \<Rightarrow> 'f sys" where
  "fire EffectRuns s = effect_runs s"
| "fire (CallSettles k outcome) s = call_settles k outcome s"

fun run :: "event list \<Rightarrow> 'f sys \<Rightarrow> 'f sys" where
  "run [] s = s"
| "run (e # es) s = run es (fire e s)"

definition statuses :: "'f sys \<Rightarrow> StepStatus list" where
  "statuses s = map status (workflowSteps (app s))"

definition json_parse_strings :: "string \<Rightarrow> string list option" where
  \<comment> \<open>A stand-in for \<open>JSON.parse\<close> in the examples: it reads the empty array and an
      array of string literals of printable ASCII that have no backslash and no comma,
      without white space, and rejects every other text.\<close>
  "json_parse_strings m =
     (if length m \<ge> 2 \<and> hd m = CHR ''['' \<and> last m = CHR '']''
      then (let inner = butlast (tl m); items = split_on (CHR '','') inner
            in if inner = [] then Some []
               else if list_all (\<lambda>i. length i \<ge> 2 \<and> hd i = CHR 0x22 \<and> last i = CHR 0x22
                         \<and> list_all (\<lambda>c. c \<noteq> CHR 0x22 \<and> c \<noteq> CHR 0x5C
                               \<and> 32 \<le> (of_char c :: nat) \<and> (of_char c :: nat) < 127)
                             (butlast (tl i))) items
               then Some (map (\<lambda>i. butlast (tl i)) items)
               else None)
      else None)"

section \<open>Inputs of the examples\<close>

definition python_block :: string where
  \<comment> \<open>the fenced block of the classification example, its \<open>\n\<close> read as line feeds\<close>
  "python_block = fence @ ''python'' @ newline @ ''print(1)'' @ newline @ fence"

definition report_step :: "string \<Rightarrow> WorkflowStep" where
  \<comment> \<open>a completed step whose description asks for a report\<close>
  "report_step r = \<lparr>step_id = ''s1'', description = ''Write the final report'',
     status = COMPLETED, result = Some r, step_thinking = None\<rparr>"

definition example_step :: "string \<Rightarrow> StepStatus \<Rightarrow> string option \<Rightarrow> WorkflowStep" where
  \<comment> \<open>a step named after its description\<close>
  "example_step d st r =
     \<lparr>step_id = d, description = d, status = st, result = r, step_thinking = None\<rparr>"

definition ready_app :: "unit app" where
  \<comment> \<open>the initial state of the component with one uploaded file\<close>
  "ready_app = \<lparr>files = [()], workflowSteps = [], agentState = idle, error = None\<rparr>"

definition example_id :: "nat \<Rightarrow> string" where
  \<comment> \<open>identifiers for the examples, distinct at distinct indices\<close>
  "example_id i = replicate (Suc i) (CHR ''x'')"

definition start :: "'f app \<Rightarrow> 'f sys" where
  \<comment> \<open>the component with no call awaited, as it is when a plan has just been installed\<close>
  "start a = \<lparr>app = a, inflight = []\<rparr>"

definition two_step_plan :: "unit app" where
  \<comment> \<open>the state after \<open>handleCreateWorkflow\<close> with the plan \<open>["a","b"]\<close>\<close>
  "two_step_plan =
     handleCreateWorkflow example_id json_parse_strings
       (Reply (''['' @ dquote @ ''a'' @ dquote @ '','' @ dquote @ ''b'' @ dquote @ '']''))
       ready_app"

definition failing_stream :: model_stream where
  \<comment> \<open>a model call that delivers one chunk and then throws an \<open>Error\<close>\<close>
  "failing_stream = \<lparr>deltas = [Some ''par''], failure = Some (Error ''network down'')\<rparr>"

section \<open>Predicates on the states of the auto-executor\<close>

definition halted :: "'f sys \<Rightarrow> bool" where
  "halted s = (\<not> isExecuting (agentState (app s)))"

definition has_failed :: "'f sys \<Rightarrow> bool" where
  "has_failed s = (\<exists>st \<in> set (workflowSteps (app s)). status st = FAILED)"

section \<open>Properties of the regular-expression search\<close>

lemma lazy_until_prefix:
  "prefix lit s \<Longrightarrow> lazy_until lit s = Some ([], drop (length lit) s)"
  by (cases s) auto

lemma lazy_until_sound:
  "lazy_until lit s = Some (cap, rest) \<Longrightarrow> s = cap @ lit @ rest"
proof (induction s arbitrary: cap)
  case Nil
  then show ?case by (simp split: if_splits)
next
  case (Cons c cs)
  show ?case
  proof (cases "prefix lit (c # cs)")
    case True
    with Cons.prems have "cap = []" "rest = drop (length lit) (c # cs)" by simp_all
    moreover from True obtain zs where "c # cs = lit @ zs" by (auto simp: prefix_def)
    ultimately show ?thesis by simp
  next
    case False
    with Cons.prems obtain cap' where "lazy_until lit cs = Some (cap', rest)" "cap = c # cap'"
      by auto
    with Cons.IH show ?thesis by simp
  qed
qed

lemma lazy_until_first:
  "lazy_until lit s = Some (cap, rest) \<Longrightarrow> k < length cap \<Longrightarrow> \<not> prefix lit (drop k s)"
proof (induction s arbitrary: cap k)
  case Nil
  then show ?case by (simp split: if_splits)
next
  case (Cons c cs)
  show ?case
  proof (cases "prefix lit (c # cs)")
    case True
    with Cons.prems show ?thesis by simp
  next
    case False
    with Cons.prems obtain cap' where c: "lazy_until lit cs = Some (cap', rest)" "cap = c # cap'"
      by auto
    show ?thesis
    proof (cases k)
      case 0
      with False show ?thesis by simp
    next
      case (Suc j)
      with Cons.prems c have "j < length cap'" by simp
      from Cons.IH [OF c(1) this] Suc show ?thesis by simp
    qed
  qed
qed

lemma lazy_until_complete:
  "\<exists>cap rest. lazy_until lit (a @ lit @ b) = Some (cap, rest)"
proof (induction a)
  case Nil
  show ?case using lazy_until_prefix [of lit "lit @ b"] by simp
next
  case (Cons x a)
  then show ?case by auto
qed

lemma lazy_until_None: "lazy_until lit s = None \<Longrightarrow> \<not> sublist lit s"
proof
  assume n: "lazy_until lit s = None" and "sublist lit s"
  then obtain a b where "s = a @ lit @ b" by (auto simp: sublist_def)
  with lazy_until_complete [of lit a b] n show False by simp
qed

lemma lazy_until_exact:
  "(\<And>k. k < length cap \<Longrightarrow> \<not> prefix lit (drop k (cap @ lit @ rest)))
    \<Longrightarrow> lazy_until lit (cap @ lit @ rest) = Some (cap, rest)"
proof (induction cap)
  case Nil
  show ?case using lazy_until_prefix [of lit "lit @ rest"] by simp
next
  case (Cons c cap)
  from Cons.prems [of 0] have n: "\<not> prefix lit (c # cap @ lit @ rest)" by simp
  have "lazy_until lit (cap @ lit @ rest) = Some (cap, rest)"
  proof (rule Cons.IH)
    fix k assume "k < length cap"
    then show "\<not> prefix lit (drop k (cap @ lit @ rest))"
      using Cons.prems [of "Suc k"] by simp
  qed
  with n show ?case by simp
qed

lemma regex_search_sound:
  "regex_search (literal_head opn) cls s = Some (pre, g, cap, rest)
    \<Longrightarrow> s = pre @ opn @ cap @ cls @ rest"
proof (induction s arbitrary: pre)
  case Nil
  then show ?case
    by (auto simp: match_here_def literal_head_def split: option.splits if_splits
        dest: lazy_until_sound)
next
  case (Cons c cs)
  show ?case
  proof (cases "match_here (literal_head opn) cls (c # cs)")
    case None
    with Cons.prems obtain pre' where
      "regex_search (literal_head opn) cls cs = Some (pre', g, cap, rest)" "pre = c # pre'"
      by auto
    with Cons.IH show ?thesis by simp
  next
    case (Some m)
    with Cons.prems have m: "m = (g, cap, rest)" "pre = []" by (auto split: prod.splits)
    from Some m obtain r where r: "prefix opn (c # cs)" "r = drop (length opn) (c # cs)"
      "lazy_until cls r = Some (cap, rest)"
      by (auto simp: match_here_def literal_head_def split: option.splits if_splits)
    from r(1) obtain zs where "c # cs = opn @ zs" by (auto simp: prefix_def)
    with r lazy_until_sound [OF r(3)] m show ?thesis by simp
  qed
qed

lemma regex_search_complete:
  "\<exists>m. regex_search (literal_head opn) cls (a @ opn @ b @ cls @ c) = Some m"
proof (induction a)
  case Nil
  obtain cap rest where l: "lazy_until cls (b @ cls @ c) = Some (cap, rest)"
    using lazy_until_complete by blast
  then have "match_here (literal_head opn) cls (opn @ b @ cls @ c) = Some ((), cap, rest)"
    by (simp add: match_here_def literal_head_def)
  then show ?case by (cases "opn @ b @ cls @ c") auto
next
  case (Cons x a)
  then show ?case by (auto split: option.splits)
qed

lemma regex_search_exact:
  assumes "\<And>k. k < length pre \<Longrightarrow> \<not> prefix opn (drop k (pre @ opn @ mid @ cls @ post))"
    and "\<And>k. k < length mid \<Longrightarrow> \<not> prefix cls (drop k (mid @ cls @ post))"
  shows "regex_search (literal_head opn) cls (pre @ opn @ mid @ cls @ post)
           = Some (pre, (), mid, post)"
  using assms(1)
proof (induction pre)
  case Nil
  have "lazy_until cls (mid @ cls @ post) = Some (mid, post)"
    using assms(2) by (rule lazy_until_exact)
  then have "match_here (literal_head opn) cls (opn @ mid @ cls @ post) = Some ((), mid, post)"
    by (simp add: match_here_def literal_head_def)
  then show ?case by (cases "opn @ mid @ cls @ post") auto
next
  case (Cons c pre)
  from Cons.prems [of 0] have "\<not> prefix opn (c # pre @ opn @ mid @ cls @ post)" by simp
  then have n: "match_here (literal_head opn) cls (c # pre @ opn @ mid @ cls @ post) = None"
    by (simp add: match_here_def literal_head_def)
  have "regex_search (literal_head opn) cls (pre @ opn @ mid @ cls @ post)
           = Some (pre, (), mid, post)"
  proof (rule Cons.IH)
    fix k assume "k < length pre"
    then show "\<not> prefix opn (drop k (pre @ opn @ mid @ cls @ post))"
      using Cons.prems [of "Suc k"] by simp
  qed
  with n show ?case by simp
qed


section \<open>Properties of trim\<close>

lemma dropWhile_keeps_middle:
  assumes "x \<noteq> []" and "\<not> P (hd x)"
  shows "\<exists>p'. dropWhile P (p @ x @ q) = p' @ x @ q"
proof -
  from assms obtain h t where x: "x = h # t" and h: "\<not> P h" by (cases x) auto
  have "dropWhile P (p @ h # (t @ q)) = dropWhile P p @ h # (t @ q)"
    using h by (rule dropWhile_append3)
  with x show ?thesis by auto
qed

lemma sublist_trim:
  assumes "x \<noteq> []" and "\<not> is_space (hd x)" and "\<not> is_space (last x)" and "sublist x s"
  shows "sublist x (trim s)"
proof -
  from assms(4) obtain p q where s: "s = p @ x @ q" by (auto simp: sublist_def)
  obtain p' where p': "dropWhile is_space (p @ x @ q) = p' @ x @ q"
    using dropWhile_keeps_middle [of x is_space p q] assms(1,2) by blast
  have "rev x \<noteq> []" "\<not> is_space (hd (rev x))"
    using assms(1,3) by (simp_all add: hd_rev)
  then obtain q' where q': "dropWhile is_space (rev q @ rev x @ rev p') = q' @ rev x @ rev p'"
    using dropWhile_keeps_middle [of "rev x" is_space "rev q" "rev p'"] by auto
  have "trim s = p' @ x @ rev q'"
    using s p' q' by (simp add: trim_def)
  then show ?thesis by (auto simp: sublist_def)
qed

section \<open>The thinking split\<close>

lemma no_pair_search:
  "\<nexists>a b c. text = a @ opn @ b @ cls @ c \<Longrightarrow> regex_search (literal_head opn) cls text = None"
proof (rule ccontr)
  assume n: "\<nexists>a b c. text = a @ opn @ b @ cls @ c"
    and "regex_search (literal_head opn) cls text \<noteq> None"
  then obtain pre g cap rest where
    "regex_search (literal_head opn) cls text = Some (pre, g, cap, rest)" by auto
  from regex_search_sound [OF this] n show False by blast
qed

lemma extractThinking_first:
  assumes "text = pre @ think_open @ mid @ think_close @ post"
    and "\<forall>k<length pre. \<not> prefix think_open (drop k text)"
    and "\<forall>k<length mid. \<not> prefix think_close (drop k (mid @ think_close @ post))"
  shows "extractThinking text = \<lparr>thinking = trim mid, content = trim (pre @ post)\<rparr>"
proof -
  have "regex_search (literal_head think_open) think_close
          (pre @ think_open @ mid @ think_close @ post) = Some (pre, (), mid, post)"
    using assms by (intro regex_search_exact) auto
  with assms(1) show ?thesis by (simp add: extractThinking_def)
qed

lemma extractThinking_some_pair:
  assumes "\<exists>a b c. text = a @ think_open @ b @ think_close @ c"
  shows "\<exists>pre mid post. text = pre @ think_open @ mid @ think_close @ post
           \<and> extractThinking text = \<lparr>thinking = trim mid, content = trim (pre @ post)\<rparr>"
proof -
  from assms obtain a b c where "text = a @ think_open @ b @ think_close @ c" by blast
  with regex_search_complete [of think_open think_close a b c]
  obtain pre g cap rest where
    m: "regex_search (literal_head think_open) think_close text = Some (pre, g, cap, rest)"
    by (metis prod_cases4)
  from regex_search_sound [OF m] m show ?thesis
    by (auto simp: extractThinking_def)
qed

lemma extractThinking_no_pair:
  assumes "\<nexists>a b c. text = a @ think_open @ b @ think_close @ c"
  shows "extractThinking text = \<lparr>thinking = [], content = text\<rparr>"
  using no_pair_search [OF assms] by (simp add: extractThinking_def)

lemma extractThinking_example:
  "extractThinking ''<think>reasoning here</think>Final answer text''
   = \<lparr>thinking = ''reasoning here'', content = ''Final answer text''\<rparr>"
  by (simp add: extractThinking_def think_open_def think_close_def match_here_def
      literal_head_def trim_def is_space_def)

text \<open>
  Claim C4. In a raw output whose first \<open><think>\<close> is followed by a \<open></think>\<close>, the
  thinking is the trimmed text between that \<open><think>\<close> and the first \<open></think>\<close> after
  it, and the content is the trimmed text with this region removed; every output that holds
  a \<open><think>\<close> followed somewhere by a \<open></think>\<close> splits in this way. An output with
  no such pair gives the empty thinking and the whole input, unchanged, as content. The
  output \<open><think>reasoning here</think>Final answer text\<close> gives \<open>reasoning here\<close> and
  \<open>Final answer text\<close>.
\<close>

theorem extractThinking_split:
  "(\<forall>pre mid post.
      text = pre @ think_open @ mid @ think_close @ post
      \<and> (\<forall>k<length pre. \<not> prefix think_open (drop k text))
      \<and> (\<forall>k<length mid. \<not> prefix think_close (drop k (mid @ think_close @ post)))
      \<longrightarrow> extractThinking text = \<lparr>thinking = trim mid, content = trim (pre @ post)\<rparr>)
   \<and> ((\<exists>a b c. text = a @ think_open @ b @ think_close @ c)
      \<longrightarrow> (\<exists>pre mid post. text = pre @ think_open @ mid @ think_close @ post
             \<and> extractThinking text = \<lparr>thinking = trim mid, content = trim (pre @ post)\<rparr>))
   \<and> ((\<nexists>a b c. text = a @ think_open @ b @ think_close @ c)
      \<longrightarrow> extractThinking text = \<lparr>thinking = [], content = text\<rparr>)
   \<and> extractThinking ''<think>reasoning here</think>Final answer text''
        = \<lparr>thinking = ''reasoning here'', content = ''Final answer text''\<rparr>"
  using extractThinking_first extractThinking_some_pair extractThinking_no_pair
    extractThinking_example by blast

lemma no_open_no_pair:
  "\<not> sublist opn text \<Longrightarrow> \<nexists>a b c. text = a @ opn @ b @ cls @ c"
  by (auto simp: sublist_def)

theorem extractThinking_split_witness:
  "(\<exists>a b c. ''<think> plan </think> done '' = a @ think_open @ b @ think_close @ c)
   \<and> extractThinking ''<think> plan </think> done '' = \<lparr>thinking = ''plan'', content = ''done''\<rparr>
   \<and> (\<nexists>a b c. ''no delimiters '' = a @ think_open @ b @ think_close @ c)
   \<and> extractThinking ''no delimiters '' = \<lparr>thinking = [], content = ''no delimiters ''\<rparr>"
proof -
  have e: "''<think> plan </think> done '' = [] @ think_open @ '' plan '' @ think_close @ '' done ''"
    by (simp add: think_open_def think_close_def)
  then have p: "\<exists>a b c. ''<think> plan </think> done '' = a @ think_open @ b @ think_close @ c"
    by blast
  have f1: "\<forall>k<length ([]::string). \<not> prefix think_open (drop k ''<think> plan </think> done '')"
    by simp
  have f2: "\<forall>k<length '' plan ''. \<not> prefix think_close (drop k ('' plan '' @ think_close @ '' done ''))"
    by (simp add: think_close_def All_less_Suc2)
  have n: "\<nexists>a b c. ''no delimiters '' = a @ think_open @ b @ think_close @ c"
    by (rule no_open_no_pair) (simp add: think_open_def sublist_Cons_right)
  have t: "trim '' plan '' = ''plan''" "trim ([] @ '' done '') = ''done''"
    by (simp_all add: trim_def is_space_def)
  from extractThinking_split [of "''<think> plan </think> done ''"] e f1 f2
  have "extractThinking ''<think> plan </think> done ''
          = \<lparr>thinking = trim '' plan '', content = trim ([] @ '' done '')\<rparr>"
    by blast
  moreover from extractThinking_split [of "''no delimiters ''"] n
  have "extractThinking ''no delimiters '' = \<lparr>thinking = [], content = ''no delimiters ''\<rparr>"
    by blast
  ultimately show ?thesis using p n t by simp
qed

lemma no_close_no_pair:
  "\<not> sublist cls text \<Longrightarrow> \<nexists>a b c. text = a @ opn @ b @ cls @ c"
proof
  assume n: "\<not> sublist cls text" and "\<exists>a b c. text = a @ opn @ b @ cls @ c"
  then obtain a b c where "text = (a @ opn @ b) @ cls @ c" by auto
  then have "sublist cls text" unfolding sublist_def by blast
  with n show False by simp
qed

text \<open>
  Claim C10. The split removes the first matched pair only. Where the first \<open><think>\<close>
  of the raw output is followed by a \<open></think>\<close>, the thinking is the trimmed text up to
  the first such \<open></think>\<close>, the content is the trimmed text without that region, and
  every pair in the text after that region is still in the content, delimiters included.
  Where the output holds a \<open><think>\<close> and no \<open></think>\<close> after a \<open><think>\<close>, the
  thinking is empty and the content is the whole text, the \<open><think>\<close> still in it.
\<close>

theorem extractThinking_first_pair_only:
  "(\<forall>pre mid post.
      text = pre @ think_open @ mid @ think_close @ post
      \<and> (\<forall>k<length pre. \<not> prefix think_open (drop k text))
      \<and> (\<forall>k<length mid. \<not> prefix think_close (drop k (mid @ think_close @ post)))
      \<longrightarrow> thinking (extractThinking text) = trim mid
          \<and> content (extractThinking text) = trim (pre @ post)
          \<and> (\<forall>a m b. post = a @ think_open @ m @ think_close @ b
                \<longrightarrow> sublist (think_open @ m @ think_close) (content (extractThinking text))))
   \<and> (sublist think_open text \<and> (\<nexists>a b c. text = a @ think_open @ b @ think_close @ c)
      \<longrightarrow> thinking (extractThinking text) = []
          \<and> content (extractThinking text) = text
          \<and> sublist think_open (content (extractThinking text)))"
proof (intro conjI allI impI)
  fix pre mid post
  assume h: "text = pre @ think_open @ mid @ think_close @ post
      \<and> (\<forall>k<length pre. \<not> prefix think_open (drop k text))
      \<and> (\<forall>k<length mid. \<not> prefix think_close (drop k (mid @ think_close @ post)))"
  then have e: "extractThinking text = \<lparr>thinking = trim mid, content = trim (pre @ post)\<rparr>"
    using extractThinking_first by blast
  from e show "thinking (extractThinking text) = trim mid" by simp
  from e show "content (extractThinking text) = trim (pre @ post)" by simp
  fix a m b
  assume p: "post = a @ think_open @ m @ think_close @ b"
  have "sublist (think_open @ m @ think_close) (pre @ post)"
    unfolding sublist_def p by (rule exI [of _ "pre @ a"], rule exI [of _ b]) simp
  moreover have "think_open @ m @ think_close \<noteq> []"
    "\<not> is_space (hd (think_open @ m @ think_close))"
    "\<not> is_space (last (think_open @ m @ think_close))"
    by (simp_all add: think_open_def think_close_def is_space_def)
  ultimately have "sublist (think_open @ m @ think_close) (trim (pre @ post))"
    using sublist_trim by blast
  with e show "sublist (think_open @ m @ think_close) (content (extractThinking text))"
    by simp
next
  assume h: "sublist think_open text \<and> (\<nexists>a b c. text = a @ think_open @ b @ think_close @ c)"
  then have e: "extractThinking text = \<lparr>thinking = [], content = text\<rparr>"
    using extractThinking_no_pair by blast
  from e show "thinking (extractThinking text) = []" by simp
  from e show "content (extractThinking text) = text" by simp
  from e h show "sublist think_open (content (extractThinking text))" by simp
qed

theorem extractThinking_first_pair_only_witness:
  "content (extractThinking ''a<think>b</think> c <think>d</think> e'') = ''a c <think>d</think> e''
   \<and> thinking (extractThinking ''a<think>b</think> c <think>d</think> e'') = ''b''
   \<and> sublist ''<think>d</think>'' (content (extractThinking ''a<think>b</think> c <think>d</think> e''))
   \<and> sublist think_open ''x <think> y''
   \<and> (\<nexists>a b c. ''x <think> y'' = a @ think_open @ b @ think_close @ c)
   \<and> extractThinking ''x <think> y'' = \<lparr>thinking = [], content = ''x <think> y''\<rparr>"
proof -
  let ?t = "''a<think>b</think> c <think>d</think> e''"
  have e: "?t = ''a'' @ think_open @ ''b'' @ think_close @ '' c <think>d</think> e''"
    by (simp add: think_open_def think_close_def)
  have f1: "\<forall>k<length ''a''. \<not> prefix think_open (drop k ?t)"
    by (simp add: think_open_def)
  have f2: "\<forall>k<length ''b''. \<not> prefix think_close (drop k (''b'' @ think_close @ '' c <think>d</think> e''))"
    by (simp add: think_close_def)
  have p: "'' c <think>d</think> e'' = '' c '' @ think_open @ ''d'' @ think_close @ '' e''"
    by (simp add: think_open_def think_close_def)
  have t: "trim ''b'' = ''b''" "trim (''a'' @ '' c <think>d</think> e'') = ''a c <think>d</think> e''"
    by (simp_all add: trim_def is_space_def)
  have d: "think_open @ ''d'' @ think_close = ''<think>d</think>''"
    by (simp add: think_open_def think_close_def)
  from extractThinking_first_pair_only [of ?t] e f1 f2
  have 1: "thinking (extractThinking ?t) = trim ''b''
          \<and> content (extractThinking ?t) = trim (''a'' @ '' c <think>d</think> e'')
          \<and> (\<forall>a m b. '' c <think>d</think> e'' = a @ think_open @ m @ think_close @ b
                \<longrightarrow> sublist (think_open @ m @ think_close) (content (extractThinking ?t)))"
    by blast
  with p have 2: "sublist (think_open @ ''d'' @ think_close) (content (extractThinking ?t))"
    by blast
  have o: "sublist think_open ''x <think> y''"
    by (simp add: think_open_def sublist_Cons_right)
  have n: "\<nexists>a b c. ''x <think> y'' = a @ think_open @ b @ think_close @ c"
    by (rule no_close_no_pair) (simp add: think_close_def sublist_Cons_right)
  from extractThinking_first_pair_only [of "''x <think> y''"] o n
  have 3: "thinking (extractThinking ''x <think> y'') = []
          \<and> content (extractThinking ''x <think> y'') = ''x <think> y''"
    by blast
  then have "extractThinking ''x <think> y'' = \<lparr>thinking = [], content = ''x <think> y''\<rparr>"
    by (cases "extractThinking ''x <think> y''") simp
  with 1 2 t d o n show ?thesis by simp
qed

section \<open>File classification\<close>

lemma split_on_not_Nil: "split_on d s \<noteq> []"
  by (induction s) (auto split: list.splits)

lemma split_on_no_sep: "d \<notin> set s \<Longrightarrow> split_on d s = [s]"
  by (induction s) auto

lemma split_on_single: "split_on d s = [x] \<Longrightarrow> d \<notin> set s"
  by (induction s arbitrary: x) (auto simp: split_on_not_Nil split: if_splits list.splits)

lemma last_split_on_sep: "d \<notin> set e \<Longrightarrow> last (split_on d (b @ d # e)) = e"
proof (induction b)
  case Nil
  then show ?case by (simp add: split_on_no_sep)
next
  case (Cons c b)
  show ?case
  proof (cases "c = d")
    case True
    with Cons show ?thesis by (simp add: split_on_not_Nil)
  next
    case False
    obtain x xs where s: "split_on d (b @ d # e) = x # xs"
      using split_on_not_Nil [of d "b @ d # e"] by (cases "split_on d (b @ d # e)") auto
    have "xs \<noteq> []"
    proof
      assume "xs = []"
      with s have "d \<notin> set (b @ d # e)" using split_on_single by blast
      then show False by simp
    qed
    with Cons False s show ?thesis by simp
  qed
qed

lemma file_ext_after_dot:
  "CHR ''.'' \<notin> set e \<Longrightarrow> file_ext (b @ CHR ''.'' # e) = Some (toLowerCase e)"
  by (simp add: file_ext_def pop_def split_on_not_Nil last_split_on_sep)

lemma file_ext_no_dot:
  "CHR ''.'' \<notin> set n \<Longrightarrow> file_ext n = Some (toLowerCase n)"
  by (simp add: file_ext_def pop_def split_on_no_sep)

lemma or_else_Some_Nil: "or_else (Some t) [] = t"
  by (simp add: or_else_def)

lemma ext_main_cpp: "file_ext ''main.cpp'' = Some ''cpp''"
  by code_simp

lemma ext_report_docx: "file_ext ''report.docx'' = Some ''docx''"
  by code_simp

lemma ext_c: "file_ext ''c'' = Some ''c''"
  by code_simp

lemma document_not_pdf: "sublist ''document'' type \<Longrightarrow> type \<noteq> ''application/pdf''"
  by (auto simp: sublist_Cons_right)

lemma after_last_dot_none:
  "CHR ''.'' \<notin> set n \<Longrightarrow> rev (takeWhile (\<lambda>c. c \<noteq> CHR ''.'') (rev n)) = n"
proof -
  assume "CHR ''.'' \<notin> set n"
  then have tw: "takeWhile (\<lambda>c. c \<noteq> CHR ''.'') (rev n) = rev n"
    by auto
  show ?thesis unfolding tw by (rule rev_rev_ident)
qed

lemma after_last_dot_some:
  "CHR ''.'' \<notin> set e
    \<Longrightarrow> rev (takeWhile (\<lambda>c. c \<noteq> CHR ''.'') (rev (b @ CHR ''.'' # e))) = e"
proof -
  assume n: "CHR ''.'' \<notin> set e"
  have "takeWhile (\<lambda>c. c \<noteq> CHR ''.'') (rev e @ CHR ''.'' # rev b)
          = takeWhile (\<lambda>c. c \<noteq> CHR ''.'') (rev e)"
    by (rule takeWhile_tail) simp
  also have "\<dots> = rev e" using n by auto
  finally have tw: "takeWhile (\<lambda>c. c \<noteq> CHR ''.'') (rev e @ CHR ''.'' # rev b) = rev e" .
  have "rev (b @ CHR ''.'' # e) = rev e @ CHR ''.'' # rev b" by simp
  then show ?thesis unfolding tw by (simp only: tw rev_rev_ident)
qed

lemma file_ext_last_segment:
  "file_ext filename
     = Some (toLowerCase (rev (takeWhile (\<lambda>c. c \<noteq> CHR ''.'') (rev filename))))"
proof (cases "CHR ''.'' \<in> set filename")
  case False
  then show ?thesis by (simp add: file_ext_no_dot after_last_dot_none)
next
  case True
  then obtain b e where f: "filename = b @ CHR ''.'' # e" and n: "CHR ''.'' \<notin> set e"
    using split_list_last [of "CHR ''.''" filename] by blast
  have "file_ext (b @ CHR ''.'' # e) = Some (toLowerCase e)"
    using n by (rule file_ext_after_dot)
  moreover have "rev (takeWhile (\<lambda>c. c \<noteq> CHR ''.'') (rev (b @ CHR ''.'' # e))) = e"
    using n by (rule after_last_dot_some)
  ultimately show ?thesis unfolding f by (simp only:)
qed

text \<open>
  Claim C8, amended. For every file name, the extension is the lower-cased text after
  the last dot of the name, and the whole lower-cased name when the name has no dot (so a
  file named \<open>c\<close> has the extension \<open>c\<close>). A code or markup extension gives \<open>code\<close>,
  whatever the media type (so \<open>main.cpp\<close> is \<open>code\<close>, and so is \<open>c\<close>); otherwise the
  PDF media type or extension gives \<open>pdf\<close>; otherwise a media type that starts with
  \<open>image/\<close> gives \<open>image\<close>; otherwise a document extension or a media type that contains
  \<open>text\<close> or \<open>document\<close> gives \<open>document\<close>; otherwise \<open>unknown\<close>. \<open>report.docx\<close> with a
  media type that contains \<open>document\<close> and does not start with \<open>image/\<close> is \<open>document\<close>.
\<close>

theorem getFileCategory_precedence:
  "(let ext = toLowerCase (rev (takeWhile (\<lambda>c. c \<noteq> CHR ''.'') (rev filename)))
    in file_ext filename = Some ext
       \<and> (CHR ''.'' \<notin> set filename \<longrightarrow> ext = toLowerCase filename)
       \<and> (\<forall>b e. filename = b @ CHR ''.'' # e \<and> CHR ''.'' \<notin> set e \<longrightarrow> ext = toLowerCase e)
       \<and> (ext \<in> set code_exts \<longrightarrow> getFileCategory filename type = CODE)
       \<and> (ext \<notin> set code_exts \<and> (type = ''application/pdf'' \<or> ext = ''pdf'')
          \<longrightarrow> getFileCategory filename type = PDF)
       \<and> (ext \<notin> set code_exts \<and> \<not> (type = ''application/pdf'' \<or> ext = ''pdf'')
            \<and> prefix ''image/'' type
          \<longrightarrow> getFileCategory filename type = IMAGE)
       \<and> (ext \<notin> set code_exts \<and> \<not> (type = ''application/pdf'' \<or> ext = ''pdf'')
            \<and> \<not> prefix ''image/'' type
            \<and> (ext \<in> set doc_exts \<or> sublist ''text'' type \<or> sublist ''document'' type)
          \<longrightarrow> getFileCategory filename type = DOCUMENT)
       \<and> (ext \<notin> set code_exts \<and> \<not> (type = ''application/pdf'' \<or> ext = ''pdf'')
            \<and> \<not> prefix ''image/'' type
            \<and> \<not> (ext \<in> set doc_exts \<or> sublist ''text'' type \<or> sublist ''document'' type)
          \<longrightarrow> getFileCategory filename type = UNKNOWN))
   \<and> getFileCategory ''main.cpp'' type = CODE
   \<and> getFileCategory ''c'' type = CODE
   \<and> (sublist ''document'' type \<and> \<not> prefix ''image/'' type
      \<longrightarrow> getFileCategory ''report.docx'' type = DOCUMENT)"
proof -
  define ext where "ext = toLowerCase (rev (takeWhile (\<lambda>c. c \<noteq> CHR ''.'') (rev filename)))"
  have fe: "file_ext filename = Some ext"
    unfolding ext_def by (rule file_ext_last_segment)
  have nodot: "CHR ''.'' \<notin> set filename \<longrightarrow> ext = toLowerCase filename"
    unfolding ext_def by (simp add: after_last_dot_none)
  have dot: "\<forall>b e. filename = b @ CHR ''.'' # e \<and> CHR ''.'' \<notin> set e \<longrightarrow> ext = toLowerCase e"
  proof (intro allI impI, elim conjE)
    fix b e assume f: "filename = b @ CHR ''.'' # e" and n: "CHR ''.'' \<notin> set e"
    have "rev (takeWhile (\<lambda>c. c \<noteq> CHR ''.'') (rev (b @ CHR ''.'' # e))) = e"
      using n by (rule after_last_dot_some)
    then show "ext = toLowerCase e" unfolding ext_def f by (simp only:)
  qed
  have prec: "getFileCategory filename type =
     (if ext \<in> set code_exts then CODE
      else if type = ''application/pdf'' \<or> ext = ''pdf'' then PDF
      else if prefix ''image/'' type then IMAGE
      else if ext \<in> set doc_exts \<or> sublist ''text'' type \<or> sublist ''document'' type
      then DOCUMENT else UNKNOWN)"
    by (simp add: getFileCategory_def fe or_else_Some_Nil Let_def)
  have cpp: "getFileCategory ''main.cpp'' type = CODE"
    by (simp add: getFileCategory_def ext_main_cpp or_else_def code_exts_def)
  have c: "getFileCategory ''c'' type = CODE"
    by (simp add: getFileCategory_def ext_c or_else_def code_exts_def)
  have docx: "getFileCategory ''report.docx'' type = DOCUMENT"
    if "sublist ''document'' type" "\<not> prefix ''image/'' type"
    using that document_not_pdf [OF that(1)]
    by (simp add: getFileCategory_def ext_report_docx or_else_def code_exts_def doc_exts_def)
  from fe nodot dot prec cpp c docx show ?thesis
    unfolding Let_def ext_def [symmetric] by simp
qed

text \<open>
  The claim as stated fails where the media type contains \<open>document\<close> and starts with
  \<open>image/\<close>: the image test comes first.
\<close>

theorem getFileCategory_image_document:
  "sublist ''document'' ''image/document''
   \<and> getFileCategory ''report.docx'' ''image/document'' = IMAGE"
  by (simp add: getFileCategory_def ext_report_docx or_else_def code_exts_def sublist_Cons_right)

theorem getFileCategory_precedence_witness:
  "file_ext ''archive.tar.GZ'' = Some ''gz''
   \<and> file_ext ''README'' = Some ''readme''
   \<and> getFileCategory ''Main.CPP'' ''application/pdf'' = CODE
   \<and> getFileCategory ''H'' ''application/pdf'' = CODE
   \<and> getFileCategory ''scan.PDF'' ''image/png'' = PDF
   \<and> getFileCategory ''notes.txt'' ''image/png'' = IMAGE
   \<and> getFileCategory ''report.docx''
        ''application/vnd.openxmlformats-officedocument.wordprocessingml.document'' = DOCUMENT
   \<and> getFileCategory ''TXT'' [] = DOCUMENT
   \<and> getFileCategory ''data.bin'' ''application/octet-stream'' = UNKNOWN
   \<and> getFileCategory ''README'' [] = UNKNOWN"
proof -
  have x: "toLowerCase (rev (takeWhile (\<lambda>c. c \<noteq> CHR ''.'') (rev ''archive.tar.GZ''))) = ''gz''"
    "toLowerCase (rev (takeWhile (\<lambda>c. c \<noteq> CHR ''.'') (rev ''README''))) = ''readme''"
    "toLowerCase (rev (takeWhile (\<lambda>c. c \<noteq> CHR ''.'') (rev ''Main.CPP''))) = ''cpp''"
    "toLowerCase (rev (takeWhile (\<lambda>c. c \<noteq> CHR ''.'') (rev ''H''))) = ''h''"
    "toLowerCase (rev (takeWhile (\<lambda>c. c \<noteq> CHR ''.'') (rev ''scan.PDF''))) = ''pdf''"
    "toLowerCase (rev (takeWhile (\<lambda>c. c \<noteq> CHR ''.'') (rev ''notes.txt''))) = ''txt''"
    "toLowerCase (rev (takeWhile (\<lambda>c. c \<noteq> CHR ''.'') (rev ''TXT''))) = ''txt''"
    "toLowerCase (rev (takeWhile (\<lambda>c. c \<noteq> CHR ''.'') (rev ''data.bin''))) = ''bin''"
    by code_simp+
  have m: "''cpp'' \<in> set code_exts" "''h'' \<in> set code_exts" "''pdf'' \<notin> set code_exts"
    "''txt'' \<notin> set code_exts" "''bin'' \<notin> set code_exts" "''readme'' \<notin> set code_exts"
    "''txt'' \<in> set doc_exts" "''bin'' \<notin> set doc_exts" "''readme'' \<notin> set doc_exts"
    by (simp_all add: code_exts_def doc_exts_def)
  have t: "\<not> sublist ''text'' ''application/octet-stream''"
    "\<not> sublist ''document'' ''application/octet-stream''"
    "sublist ''document'' ''application/vnd.openxmlformats-officedocument.wordprocessingml.document''"
    by (simp_all add: sublist_Cons_right)
  from getFileCategory_precedence [of "''archive.tar.GZ''"]
  have 0: "file_ext ''archive.tar.GZ'' = Some ''gz''"
    unfolding Let_def x by blast
  from getFileCategory_precedence [of "''README''" "[]"] m
  have 1: "file_ext ''README'' = Some ''readme'' \<and> getFileCategory ''README'' [] = UNKNOWN"
    unfolding Let_def x by simp
  from getFileCategory_precedence [of "''Main.CPP''" "''application/pdf''"] m
  have 2: "getFileCategory ''Main.CPP'' ''application/pdf'' = CODE"
    unfolding Let_def x by blast
  from getFileCategory_precedence [of "''H''" "''application/pdf''"] m
  have 3: "getFileCategory ''H'' ''application/pdf'' = CODE"
    unfolding Let_def x by blast
  from getFileCategory_precedence [of "''scan.PDF''" "''image/png''"] m
  have 4: "getFileCategory ''scan.PDF'' ''image/png'' = PDF"
    unfolding Let_def x by blast
  from getFileCategory_precedence [of "''notes.txt''" "''image/png''"] m
  have 5: "getFileCategory ''notes.txt'' ''image/png'' = IMAGE"
    unfolding Let_def x by simp
  from getFileCategory_precedence
    [of _ "''application/vnd.openxmlformats-officedocument.wordprocessingml.document''"] t
  have 6: "getFileCategory ''report.docx''
        ''application/vnd.openxmlformats-officedocument.wordprocessingml.document'' = DOCUMENT"
    by simp
  from getFileCategory_precedence [of "''TXT''" "[]"] m
  have 7: "getFileCategory ''TXT'' [] = DOCUMENT"
    unfolding Let_def x by simp
  from getFileCategory_precedence [of "''data.bin''" "''application/octet-stream''"] m t
  have 8: "getFileCategory ''data.bin'' ''application/octet-stream'' = UNKNOWN"
    unfolding Let_def x by simp
  from 0 1 2 3 4 5 6 7 8 show ?thesis by simp
qed

section \<open>Code extraction and report classification\<close>

lemma regex_search_here:
  "match_here h lit s = Some (g, cap, rest) \<Longrightarrow> regex_search h lit s = Some ([], g, cap, rest)"
  by (cases s) auto

lemma regex_search_skip:
  "(\<And>k. k < length pre \<Longrightarrow> h (drop k (pre @ s)) = None)
    \<Longrightarrow> regex_search h lit (pre @ s)
        = map_option (\<lambda>(p, g, cap, rest). (pre @ p, g, cap, rest)) (regex_search h lit s)"
proof (induction pre)
  case Nil
  show ?case by (cases "regex_search h lit s") auto
next
  case (Cons c pre)
  from Cons.prems [of 0] have "match_here h lit (c # pre @ s) = None"
    by (simp add: match_here_def)
  moreover have "regex_search h lit (pre @ s)
        = map_option (\<lambda>(p, g, cap, rest). (pre @ p, g, cap, rest)) (regex_search h lit s)"
  proof (rule Cons.IH)
    fix k assume "k < length pre"
    then show "h (drop k (pre @ s)) = None" using Cons.prems [of "Suc k"] by simp
  qed
  ultimately show ?case by (cases "regex_search h lit s") auto
qed

lemma fence_head_python:
  "fence_head (python_block @ post) = Some (Some ''python'', ''print(1)'' @ newline @ fence @ post)"
  by (simp add: fence_head_def python_block_def fence_def newline_def is_word_char_def)

lemma lazy_until_python:
  "lazy_until fence (''print(1)'' @ newline @ fence @ post) = Some (''print(1)'' @ newline, post)"
  by (simp add: fence_def newline_def)

lemma match_here_python:
  "match_here fence_head fence (python_block @ post)
     = Some (Some ''python'', ''print(1)'' @ newline, post)"
  by (simp only: match_here_def fence_head_python lazy_until_python option.case prod.case)

lemma extractCode_first_block:
  assumes "\<forall>k<length pre. \<not> prefix fence (drop k (pre @ python_block @ post))"
  shows "extractCode (pre @ python_block @ post)
           = Some \<lparr>language = ''python'', code = ''print(1)'' @ newline\<rparr>"
proof -
  have "regex_search fence_head fence (pre @ (python_block @ post))
        = map_option (\<lambda>(p, g, cap, rest). (pre @ p, g, cap, rest))
            (regex_search fence_head fence (python_block @ post))"
  proof (rule regex_search_skip)
    fix k assume "k < length pre"
    with assms show "fence_head (drop k (pre @ python_block @ post)) = None"
      by (simp add: fence_head_def)
  qed
  also have "regex_search fence_head fence (python_block @ post)
        = Some ([], Some ''python'', ''print(1)'' @ newline, post)"
    using match_here_python by (rule regex_search_here)
  finally show ?thesis by (simp add: extractCode_def or_else_def)
qed

lemma truthy_Some_or_else: "truthy (Some t) \<Longrightarrow> or_else (Some t) [] = t"
  by (simp add: truthy_def or_else_def)

lemma codeData_blocks_report: "codeData step \<noteq> None \<Longrightarrow> \<not> isPotentialReport step"
  by (simp add: isPotentialReport_def)

text \<open>
  Claim C9, amended. For a step whose content holds the fenced block of the example with
  no fence before it, code extraction returns the language \<open>python\<close> and the payload
  \<open>print(1)\<close> followed by the line feed that precedes the closing fence; and a step with
  a detected code block is never classified as a report, whatever the length of its
  content and the wording of its description.
\<close>

theorem extractCode_python_block:
  "((\<forall>k<length pre. \<not> prefix fence (drop k (pre @ python_block @ post)))
      \<longrightarrow> extractCode (pre @ python_block @ post)
            = Some \<lparr>language = ''python'', code = ''print(1)'' @ newline\<rparr>)
   \<and> ((\<forall>k<length pre. \<not> prefix fence (drop k (pre @ python_block @ post)))
        \<and> result step = Some (pre @ python_block @ post)
      \<longrightarrow> codeData step = Some \<lparr>language = ''python'', code = ''print(1)'' @ newline\<rparr>
          \<and> \<not> isPotentialReport step)
   \<and> (codeData step \<noteq> None \<longrightarrow> \<not> isPotentialReport step)"
proof (intro conjI impI)
  assume "\<forall>k<length pre. \<not> prefix fence (drop k (pre @ python_block @ post))"
  then show "extractCode (pre @ python_block @ post)
            = Some \<lparr>language = ''python'', code = ''print(1)'' @ newline\<rparr>"
    by (rule extractCode_first_block)
next
  assume h: "(\<forall>k<length pre. \<not> prefix fence (drop k (pre @ python_block @ post)))
        \<and> result step = Some (pre @ python_block @ post)"
  have "pre @ python_block @ post \<noteq> []" by (simp add: python_block_def fence_def)
  with h have "truthy (result step)" by (simp add: truthy_def)
  with h show c: "codeData step = Some \<lparr>language = ''python'', code = ''print(1)'' @ newline\<rparr>"
    using extractCode_first_block [of pre post]
    by (simp add: codeData_def truthy_Some_or_else)
  then show "\<not> isPotentialReport step" by (simp add: isPotentialReport_def)
next
  assume "codeData step \<noteq> None"
  then show "\<not> isPotentialReport step" by (rule codeData_blocks_report)
qed

text \<open>
  The claim as stated fails on the block itself: the payload is not \<open>print(1)\<close> but
  \<open>print(1)\<close> and a line feed. And where another fenced block comes first, that block is
  the one extracted.
\<close>

theorem extractCode_payload_keeps_newline:
  "extractCode python_block = Some \<lparr>language = ''python'', code = ''print(1)'' @ newline\<rparr>
   \<and> extractCode python_block \<noteq> Some \<lparr>language = ''python'', code = ''print(1)''\<rparr>
   \<and> extractCode (fence @ ''js'' @ newline @ ''x'' @ fence @ python_block)
       = Some \<lparr>language = ''js'', code = ''x''\<rparr>"
proof -
  have "extractCode ([] @ python_block @ [])
          = Some \<lparr>language = ''python'', code = ''print(1)'' @ newline\<rparr>"
    by (rule extractCode_first_block) simp
  moreover have "extractCode (fence @ ''js'' @ newline @ ''x'' @ fence @ python_block)
       = Some \<lparr>language = ''js'', code = ''x''\<rparr>"
    by (simp add: extractCode_def match_here_def fence_head_def fence_def newline_def
        is_word_char_def or_else_def)
  ultimately show ?thesis by (simp add: newline_def)
qed

theorem extractCode_python_block_witness:
  "codeData (report_step (''Code:'' @ newline @ python_block @ newline @ ''Done.''))
      = Some \<lparr>language = ''python'', code = ''print(1)'' @ newline\<rparr>
   \<and> \<not> isPotentialReport (report_step (''Code:'' @ newline @ python_block @ newline @ ''Done.''))
   \<and> isPotentialReport (report_step ''Code: none.'')"
proof -
  let ?pre = "''Code:'' @ newline" and ?post = "newline @ ''Done.''"
  have f: "\<forall>k<length ?pre. \<not> prefix fence (drop k (?pre @ python_block @ ?post))"
    by (simp add: newline_def python_block_def fence_def All_less_Suc2)
  have r: "result (report_step (?pre @ python_block @ ?post)) = Some (?pre @ python_block @ ?post)"
    by (simp add: report_step_def)
  from extractCode_python_block [of ?pre ?post "report_step (?pre @ python_block @ ?post)"] f r
  have "codeData (report_step (?pre @ python_block @ ?post))
          = Some \<lparr>language = ''python'', code = ''print(1)'' @ newline\<rparr>
        \<and> \<not> isPotentialReport (report_step (?pre @ python_block @ ?post))"
    by blast
  moreover have "isPotentialReport (report_step ''Code: none.'')"
    by code_simp
  ultimately show ?thesis by simp
qed

section \<open>Context chaining\<close>

lemma join_Cons: "join sep (x # xs) = (if xs = [] then x else x @ sep @ join sep xs)"
  by (cases xs) simp_all

lemma join_split1: "\<exists>p r. join sep (us @ b # ws) = p @ b @ r"
proof (induction us)
  case Nil
  show ?case by (rule exI [of _ "[]"]) (simp add: join_Cons)
next
  case (Cons u us)
  then obtain p r where "join sep (us @ b # ws) = p @ b @ r" by blast
  then have "join sep ((u # us) @ b # ws) = (u @ sep @ p) @ b @ r"
    by (simp add: join_Cons)
  then show ?case by blast
qed

lemma join_split2: "\<exists>p q r. join sep (us @ a # vs @ b # ws) = p @ a @ q @ b @ r"
proof -
  obtain p' r' where t: "join sep (vs @ b # ws) = p' @ b @ r'"
    using join_split1 by blast
  show ?thesis
  proof (induction us)
    case Nil
    from t have "join sep ([] @ a # vs @ b # ws) = [] @ a @ (sep @ p') @ b @ r'"
      by (simp add: join_Cons)
    then show ?case by blast
  next
    case (Cons u us)
    then obtain p q r where "join sep (us @ a # vs @ b # ws) = p @ a @ q @ b @ r" by blast
    then have "join sep ((u # us) @ a # vs @ b # ws) = (u @ sep @ p) @ a @ q @ b @ r"
      by (simp add: join_Cons)
    then show ?case by blast
  qed
qed

lemma sublist_join: "x \<in> set xs \<Longrightarrow> sublist x (join sep xs)"
proof -
  assume "x \<in> set xs"
  then obtain us ws where "xs = us @ x # ws" by (auto simp: in_set_conv_decomp)
  with join_split1 [of sep us x ws] show ?thesis by (auto simp: sublist_def)
qed

lemma historyContext_alt:
  "historyContext steps = join history_separator (map history_entry (filter contributes steps))"
  by (simp add: historyContext_def)

lemma historyContext_filter: "historyContext (filter contributes steps) = historyContext steps"
  by (simp add: historyContext_alt)

lemma contextSection_filter: "contextSection (filter contributes steps) = contextSection steps"
  by (simp add: contextSection_def historyContext_filter)

lemma entry_in_history:
  assumes "s \<in> set steps" and "contributes s"
  shows "sublist (history_entry s) (historyContext steps)"
  unfolding historyContext_alt using assms by (intro sublist_join) simp

lemma history_entry_not_Nil: "history_entry s \<noteq> []"
  by (simp add: history_entry_def)

lemma contextSection_history:
  assumes "s \<in> set steps" and "contributes s"
  shows "contextSection steps = historyContext steps"
proof -
  from entry_in_history [OF assms] history_entry_not_Nil [of s]
  have "historyContext steps \<noteq> []" by auto
  then show ?thesis by (simp add: contextSection_def)
qed

lemma description_in_entry: "sublist (description s) (history_entry s)"
  unfolding history_entry_def sublist_def
  by (rule exI [of _ "''PREVIOUS STEP: '' @ dquote"]) auto

lemma result_in_entry:
  assumes "truthy (result s)"
  shows "sublist (or_else (result s) []) (history_entry s)"
proof -
  from assms obtain r where r: "result s = Some r" "r \<noteq> []"
    by (auto simp: truthy_def split: option.splits)
  then have "history_entry s
    = (''PREVIOUS STEP: '' @ dquote @ description s @ dquote @ newline @ ''RESULT: '')
        @ or_else (result s) [] @ newline"
    by (simp add: history_entry_def or_else_def)
  then show ?thesis unfolding sublist_def by blast
qed

lemma context_holds_step:
  assumes "s \<in> set steps" and "contributes s"
  shows "sublist (description s) (contextSection steps)"
    and "sublist (or_else (result s) []) (contextSection steps)"
proof -
  have e: "sublist (history_entry s) (contextSection steps)"
    using entry_in_history [OF assms] contextSection_history [OF assms] by simp
  from description_in_entry e show "sublist (description s) (contextSection steps)"
    by (rule sublist_order.order_trans)
  from assms(2) have "truthy (result s)" by (simp add: contributes_def)
  from result_in_entry [OF this] e
  show "sublist (or_else (result s) []) (contextSection steps)"
    by (rule sublist_order.order_trans)
qed

lemma context_in_order:
  assumes "steps = xs @ a # ys @ b # zs" and "contributes a" and "contributes b"
  shows "\<exists>p q r. contextSection steps = p @ history_entry a @ q @ history_entry b @ r"
proof -
  have "a \<in> set steps" using assms(1) by simp
  from contextSection_history [OF this assms(2)]
  have "contextSection steps = historyContext steps" .
  also have "\<dots> = join history_separator
      (map history_entry (filter contributes xs) @ history_entry a
        # map history_entry (filter contributes ys) @ history_entry b
        # map history_entry (filter contributes zs))"
    using assms by (simp add: historyContext_alt)
  finally show ?thesis using join_split2 by metis
qed

text \<open>
  Claim C5, amended. The context given to a step is built from the steps that are
  Completed and hold a non-empty result, and from nothing else: it is unchanged when all
  other steps are removed. It contains the description and the result of every such
  step, the entries in the order of the list. With A Completed holding \<open>X\<close> and B and C
  Pending, the context is the one built from A alone, and contains A's description and
  \<open>X\<close>.
\<close>

theorem context_chaining:
  "contextSection steps = contextSection (filter contributes steps)
   \<and> (\<forall>s \<in> set steps. status s = COMPLETED \<and> truthy (result s)
        \<longrightarrow> sublist (description s) (contextSection steps)
            \<and> sublist (or_else (result s) []) (contextSection steps))
   \<and> (\<forall>xs a ys b zs. steps = xs @ a # ys @ b # zs \<and> contributes a \<and> contributes b
        \<longrightarrow> (\<exists>p q r. contextSection steps = p @ history_entry a @ q @ history_entry b @ r))
   \<and> (status A = COMPLETED \<and> result A = Some ''X'' \<and> status B = PENDING \<and> status C = PENDING
        \<longrightarrow> contextSection [A, B, C] = contextSection [A]
            \<and> sublist (description A) (contextSection [A, B, C])
            \<and> sublist ''X'' (contextSection [A, B, C]))"
proof (intro conjI ballI allI impI)
  show "contextSection steps = contextSection (filter contributes steps)"
    by (simp add: contextSection_filter)
next
  fix s assume "s \<in> set steps" and "status s = COMPLETED \<and> truthy (result s)"
  then have "s \<in> set steps" "contributes s" by (simp_all add: contributes_def)
  then show "sublist (description s) (contextSection steps)"
    and "sublist (or_else (result s) []) (contextSection steps)"
    by (rule context_holds_step)+
next
  fix xs a ys b zs
  assume "steps = xs @ a # ys @ b # zs \<and> contributes a \<and> contributes b"
  then show "\<exists>p q r. contextSection steps = p @ history_entry a @ q @ history_entry b @ r"
    using context_in_order by blast
next
  assume h: "status A = COMPLETED \<and> result A = Some ''X'' \<and> status B = PENDING \<and> status C = PENDING"
  then have c: "contributes A" "\<not> contributes B" "\<not> contributes C"
    by (simp_all add: contributes_def truthy_def)
  then have "filter contributes [A, B, C] = [A]" "filter contributes [A] = [A]" by simp_all
  then show "contextSection [A, B, C] = contextSection [A]"
    using contextSection_filter [of "[A, B, C]"] by simp
  have "A \<in> set [A, B, C]" by simp
  from context_holds_step [OF this c(1)] h
  show "sublist (description A) (contextSection [A, B, C])"
    and "sublist ''X'' (contextSection [A, B, C])"
    by (simp_all add: or_else_def)
qed

text \<open>
  The claim as stated fails for a Completed step whose result is the empty string: the
  filter drops it, and its description is not in the context.
\<close>

theorem context_skips_empty_result:
  "status (example_step ''Analyze'' COMPLETED (Some [])) = COMPLETED
   \<and> contextSection [example_step ''Analyze'' COMPLETED (Some []),
                      example_step ''Fix'' PENDING None]
       = ''No previous steps executed yet.''
   \<and> \<not> sublist ''Analyze''
         (contextSection [example_step ''Analyze'' COMPLETED (Some []),
                          example_step ''Fix'' PENDING None])"
  by (simp add: contextSection_def historyContext_def contributes_def truthy_def
      example_step_def sublist_Cons_right)

theorem context_chaining_witness:
  "contextSection [example_step ''A'' COMPLETED (Some ''X''),
                   example_step ''F'' FAILED (Some ''Failed to execute step.''),
                   example_step ''D'' COMPLETED (Some ''Y''),
                   example_step ''B'' PENDING None]
     = ''PREVIOUS STEP: '' @ dquote @ ''A'' @ dquote @ newline @ ''RESULT: X'' @ newline
       @ newline @ ''---'' @ newline
       @ ''PREVIOUS STEP: '' @ dquote @ ''D'' @ dquote @ newline @ ''RESULT: Y'' @ newline
   \<and> sublist ''A'' (contextSection [example_step ''A'' COMPLETED (Some ''X''),
                   example_step ''F'' FAILED (Some ''Failed to execute step.''),
                   example_step ''D'' COMPLETED (Some ''Y''),
                   example_step ''B'' PENDING None])
   \<and> sublist ''X'' (contextSection [example_step ''A'' COMPLETED (Some ''X''),
                   example_step ''F'' FAILED (Some ''Failed to execute step.''),
                   example_step ''D'' COMPLETED (Some ''Y''),
                   example_step ''B'' PENDING None])
   \<and> contextSection [example_step ''A'' COMPLETED (Some ''X''),
                     example_step ''B'' PENDING None, example_step ''C'' PENDING None]
       = contextSection [example_step ''A'' COMPLETED (Some ''X'')]"
proof -
  let ?A = "example_step ''A'' COMPLETED (Some ''X'')"
  let ?F = "example_step ''F'' FAILED (Some ''Failed to execute step.'')"
  let ?D = "example_step ''D'' COMPLETED (Some ''Y'')"
  let ?B = "example_step ''B'' PENDING None"
  let ?C = "example_step ''C'' PENDING None"
  let ?steps = "[?A, ?F, ?D, ?B]"
  have c: "contributes ?A" "\<not> contributes ?F" "contributes ?D" "\<not> contributes ?B"
    by (simp_all add: contributes_def truthy_def example_step_def)
  have f: "filter contributes ?steps = [?A, ?D]" using c by simp
  have v: "contextSection [?A, ?D]
     = ''PREVIOUS STEP: '' @ dquote @ ''A'' @ dquote @ newline @ ''RESULT: X'' @ newline
       @ newline @ ''---'' @ newline
       @ ''PREVIOUS STEP: '' @ dquote @ ''D'' @ dquote @ newline @ ''RESULT: Y'' @ newline"
    using c by (simp add: contextSection_def historyContext_def history_entry_def
        history_separator_def example_step_def dquote_def newline_def)
  have a: "?A \<in> set ?steps" "status ?A = COMPLETED \<and> truthy (result ?A)"
    "description ?A = ''A''" "or_else (result ?A) [] = ''X''"
    by (simp_all add: example_step_def truthy_def or_else_def)
  have e: "status ?A = COMPLETED \<and> result ?A = Some ''X'' \<and> status ?B = PENDING
      \<and> status ?C = PENDING"
    by (simp add: example_step_def)
  from context_chaining [of ?steps] f v
  have 1: "contextSection ?steps
     = ''PREVIOUS STEP: '' @ dquote @ ''A'' @ dquote @ newline @ ''RESULT: X'' @ newline
       @ newline @ ''---'' @ newline
       @ ''PREVIOUS STEP: '' @ dquote @ ''D'' @ dquote @ newline @ ''RESULT: Y'' @ newline"
    by simp
  from context_chaining [of ?steps] a
  have 2: "sublist ''A'' (contextSection ?steps) \<and> sublist ''X'' (contextSection ?steps)"
    by metis
  from context_chaining [of _ ?A ?B ?C] e
  have 3: "contextSection [?A, ?B, ?C] = contextSection [?A]" by blast
  from 1 2 3 show ?thesis by blast
qed

section \<open>Plan generation\<close>

lemma dropWhile_first_bracket:
  "dropWhile (\<lambda>c. c \<noteq> x) (a @ x # rest) = dropWhile (\<lambda>c. c \<noteq> x) a @ x # rest"
  by (rule dropWhile_append3) simp

lemma array_match_None_iff:
  "array_match response = None
    \<longleftrightarrow> (\<nexists>a b c. response = a @ CHR ''['' # b @ CHR '']'' # c)"
proof
  assume n: "array_match response = None"
  show "\<nexists>a b c. response = a @ CHR ''['' # b @ CHR '']'' # c"
  proof
    assume "\<exists>a b c. response = a @ CHR ''['' # b @ CHR '']'' # c"
    then obtain a b c where r: "response = a @ CHR ''['' # (b @ CHR '']'' # c)" by auto
    have d: "dropWhile (\<lambda>c. c \<noteq> CHR ''['') response
        = dropWhile (\<lambda>c. c \<noteq> CHR ''['') a @ CHR ''['' # (b @ CHR '']'' # c)"
      unfolding r by (rule dropWhile_first_bracket)
    obtain h body where hb: "dropWhile (\<lambda>c. c \<noteq> CHR ''['') response = h # body"
    proof (cases "dropWhile (\<lambda>c. c \<noteq> CHR ''['') response")
      case Nil
      with d show ?thesis by simp
    next
      case (Cons h body)
      then show ?thesis by (rule that)
    qed
    with d have "CHR '']'' \<in> set body"
      by (cases "dropWhile (\<lambda>c. c \<noteq> CHR ''['') a") auto
    with n show False unfolding array_match_def hb by simp
  qed
next
  assume n: "\<nexists>a b c. response = a @ CHR ''['' # b @ CHR '']'' # c"
  show "array_match response = None"
  proof (cases "dropWhile (\<lambda>c. c \<noteq> CHR ''['') response")
    case Nil
    show ?thesis unfolding array_match_def Nil by simp
  next
    case (Cons h body)
    then have h: "h = CHR ''[''" using hd_dropWhile [of "\<lambda>c. c \<noteq> CHR ''[''" response] by auto
    have "CHR '']'' \<notin> set body"
    proof
      assume "CHR '']'' \<in> set body"
      then obtain b c where "body = b @ CHR '']'' # c" by (auto simp: in_set_conv_decomp)
      with Cons h have "response = takeWhile (\<lambda>c. c \<noteq> CHR ''['') response
            @ CHR ''['' # b @ CHR '']'' # c"
        using takeWhile_dropWhile_id [of "\<lambda>c. c \<noteq> CHR ''[''" response] by simp
      with n show False by blast
    qed
    then show ?thesis unfolding array_match_def Cons by simp
  qed
qed

lemma array_match_Some:
  assumes "array_match response = Some m"
  shows "\<exists>a c. response = a @ m @ c \<and> hd m = CHR ''['' \<and> last m = CHR '']''
            \<and> CHR ''['' \<notin> set a \<and> CHR '']'' \<notin> set c"
proof -
  let ?P = "\<lambda>c. c \<noteq> CHR ''[''" and ?Q = "\<lambda>c. c \<noteq> CHR '']''"
  from assms obtain h body where hb: "dropWhile ?P response = h # body"
    and in_body: "CHR '']'' \<in> set body"
    and m: "m = h # rev (dropWhile ?Q (rev body))"
    by (auto simp: array_match_def split: list.splits if_splits)
  have h: "h = CHR ''[''" using hb hd_dropWhile [of ?P response] by auto
  have r: "response = takeWhile ?P response @ h # body"
    using hb takeWhile_dropWhile_id [of ?P response] by simp
  have b: "body = rev (dropWhile ?Q (rev body)) @ rev (takeWhile ?Q (rev body))"
    using takeWhile_dropWhile_id [of ?Q "rev body"]
    by (metis rev_append rev_rev_ident)
  define D where "D = dropWhile ?Q (rev body)"
  from in_body have ne: "D \<noteq> []" unfolding D_def by simp
  then have "hd D = CHR '']''"
    unfolding D_def using hd_dropWhile [of ?Q "rev body"] by blast
  with ne have l: "last m = CHR '']''" unfolding m D_def [symmetric] by (simp add: last_rev)
  have 1: "response = takeWhile ?P response @ m @ rev (takeWhile ?Q (rev body))"
    using r b m by simp
  have 2: "CHR ''['' \<notin> set (takeWhile ?P response)"
    using set_takeWhileD [of "CHR ''[''" ?P response] by auto
  have 3: "CHR '']'' \<notin> set (rev (takeWhile ?Q (rev body)))"
    using set_takeWhileD [of "CHR '']''" ?Q "rev body"] by auto
  from 1 2 3 h l m show ?thesis by (intro exI [of _ "takeWhile ?P response"]
        exI [of _ "rev (takeWhile ?Q (rev body))"]) simp
qed

lemma handleCreateWorkflow_throw:
  assumes "generateWorkflowPlan json_parse reply = Inl e" and "files a \<noteq> []"
  shows "error (handleCreateWorkflow new_id json_parse reply a)
           = Some ''Failed to generate a workflow. Please check your API key or try again.''"
    and "workflowSteps (handleCreateWorkflow new_id json_parse reply a) = []"
    and "agentState (handleCreateWorkflow new_id json_parse reply a)
           = (agentState a)\<lparr>isAnalyzing := False\<rparr>"
  using assms
  by (simp_all add: handleCreateWorkflow_def handleCreateWorkflow_end_def
      handleCreateWorkflow_begin_def)

lemma idle_stays_idle: "idle\<lparr>isAnalyzing := False\<rparr> = idle"
  by (simp add: idle_def)

lemma generateWorkflowPlan_throws_iff:
  "(\<exists>e. generateWorkflowPlan json_parse reply = Inl e)
    \<longleftrightarrow> (\<exists>t. reply = CallFails t)
        \<or> (\<exists>response m. reply = Reply response \<and> array_match response = Some m
              \<and> json_parse m = None)"
  by (auto simp: generateWorkflowPlan_def split: plan_reply.splits option.splits)

lemma no_array_fallback:
  "\<nexists>a b c. response = a @ CHR ''['' # b @ CHR '']'' # c
    \<Longrightarrow> generateWorkflowPlan json_parse (Reply response) = Inr [''Failed to generate plan.'']"
  using array_match_None_iff [of response] by (simp add: generateWorkflowPlan_def)

lemma malformed_array_throws:
  "array_match response = Some m \<Longrightarrow> json_parse m = None
    \<Longrightarrow> generateWorkflowPlan json_parse (Reply response) = Inl SyntaxError"
  by (simp add: generateWorkflowPlan_def)

text \<open>
  Claim C7. Where the model reply holds no \<open>[\<close> followed later by a \<open>]\<close>, the plan
  generator returns the one-element fallback plan and does not throw. Where it holds
  one, the text matched runs from the first \<open>[\<close> to the last \<open>]\<close>; if \<open>JSON.parse\<close>
  rejects that text, the error reaches the caller, which sets the error message, leaves
  the step list empty and clears the planning flag, so that an idle state stays idle.
\<close>

theorem plan_reply_handling:
  "((\<nexists>a b c. response = a @ CHR ''['' # b @ CHR '']'' # c)
      \<longrightarrow> generateWorkflowPlan json_parse (Reply response) = Inr [''Failed to generate plan.''])
   \<and> (array_match response = Some m
      \<longrightarrow> (\<exists>a c. response = a @ m @ c \<and> hd m = CHR ''['' \<and> last m = CHR '']''
              \<and> CHR ''['' \<notin> set a \<and> CHR '']'' \<notin> set c))
   \<and> (array_match response = Some m \<and> json_parse m = None
      \<longrightarrow> generateWorkflowPlan json_parse (Reply response) = Inl SyntaxError
          \<and> (files st \<noteq> []
              \<longrightarrow> error (handleCreateWorkflow new_id json_parse (Reply response) st)
                    = Some ''Failed to generate a workflow. Please check your API key or try again.''
                \<and> workflowSteps (handleCreateWorkflow new_id json_parse (Reply response) st) = []
                \<and> agentState (handleCreateWorkflow new_id json_parse (Reply response) st)
                    = (agentState st)\<lparr>isAnalyzing := False\<rparr>)
          \<and> (files st \<noteq> [] \<and> agentState st = idle
              \<longrightarrow> agentState (handleCreateWorkflow new_id json_parse (Reply response) st) = idle))"
proof (intro conjI impI)
  assume "\<nexists>a b c. response = a @ CHR ''['' # b @ CHR '']'' # c"
  then show "generateWorkflowPlan json_parse (Reply response) = Inr [''Failed to generate plan.'']"
    by (rule no_array_fallback)
next
  assume "array_match response = Some m"
  then show "\<exists>a c. response = a @ m @ c \<and> hd m = CHR ''['' \<and> last m = CHR '']''
              \<and> CHR ''['' \<notin> set a \<and> CHR '']'' \<notin> set c"
    by (rule array_match_Some)
next
  assume h: "array_match response = Some m \<and> json_parse m = None"
  then show t: "generateWorkflowPlan json_parse (Reply response) = Inl SyntaxError"
    by (simp add: malformed_array_throws)
  {
    assume f: "files st \<noteq> []"
    from handleCreateWorkflow_throw [OF t f]
    show "error (handleCreateWorkflow new_id json_parse (Reply response) st)
                    = Some ''Failed to generate a workflow. Please check your API key or try again.''"
      and "workflowSteps (handleCreateWorkflow new_id json_parse (Reply response) st) = []"
      and "agentState (handleCreateWorkflow new_id json_parse (Reply response) st)
                    = (agentState st)\<lparr>isAnalyzing := False\<rparr>"
      by simp_all
  }
  {
    assume "files st \<noteq> [] \<and> agentState st = idle"
    then have f: "files st \<noteq> []" and i: "agentState st = idle" by simp_all
    from handleCreateWorkflow_throw(3) [OF t f] i
    show "agentState (handleCreateWorkflow new_id json_parse (Reply response) st) = idle"
      by (simp add: idle_stays_idle)
  }
qed

lemma no_open_bracket:
  "CHR ''['' \<notin> set response \<Longrightarrow> \<nexists>a b c. response = a @ CHR ''['' # b @ CHR '']'' # c"
  by auto

theorem plan_reply_handling_witness:
  "generateWorkflowPlan json_parse_strings (Reply ''Sorry, no plan.'')
      = Inr [''Failed to generate plan.'']
   \<and> array_match (''Plan: ['' @ dquote @ ''a'' @ dquote @ '', oops] done'')
      = Some (''['' @ dquote @ ''a'' @ dquote @ '', oops]'')
   \<and> json_parse_strings (''['' @ dquote @ ''a'' @ dquote @ '', oops]'') = None
   \<and> generateWorkflowPlan json_parse_strings
        (Reply (''Plan: ['' @ dquote @ ''a'' @ dquote @ '', oops] done'')) = Inl SyntaxError
   \<and> error (handleCreateWorkflow example_id json_parse_strings
        (Reply (''Plan: ['' @ dquote @ ''a'' @ dquote @ '', oops] done'')) ready_app)
      = Some ''Failed to generate a workflow. Please check your API key or try again.''
   \<and> workflowSteps (handleCreateWorkflow example_id json_parse_strings
        (Reply (''Plan: ['' @ dquote @ ''a'' @ dquote @ '', oops] done'')) ready_app) = []
   \<and> agentState (handleCreateWorkflow example_id json_parse_strings
        (Reply (''Plan: ['' @ dquote @ ''a'' @ dquote @ '', oops] done'')) ready_app) = idle"
proof -
  let ?r = "''Plan: ['' @ dquote @ ''a'' @ dquote @ '', oops] done''"
  let ?m = "''['' @ dquote @ ''a'' @ dquote @ '', oops]''"
  have n: "\<nexists>a b c. ''Sorry, no plan.'' = a @ CHR ''['' # b @ CHR '']'' # c"
    by (rule no_open_bracket) simp
  have m: "array_match ?r = Some ?m"
    by (simp add: array_match_def dquote_def)
  have p: "json_parse_strings ?m = None"
    by code_simp
  have f: "files ready_app \<noteq> []" "agentState ready_app = idle"
    by (simp_all add: ready_app_def)
  from plan_reply_handling [where response = "''Sorry, no plan.''" and json_parse = json_parse_strings] n
  have 1: "generateWorkflowPlan json_parse_strings (Reply ''Sorry, no plan.'')
      = Inr [''Failed to generate plan.'']" by blast
  from plan_reply_handling [where response = ?r and m = ?m and json_parse = json_parse_strings
      and st = ready_app and new_id = example_id] m p f
  have 2: "generateWorkflowPlan json_parse_strings (Reply ?r) = Inl SyntaxError
     \<and> error (handleCreateWorkflow example_id json_parse_strings (Reply ?r) ready_app)
        = Some ''Failed to generate a workflow. Please check your API key or try again.''
     \<and> workflowSteps (handleCreateWorkflow example_id json_parse_strings (Reply ?r) ready_app) = []
     \<and> agentState (handleCreateWorkflow example_id json_parse_strings (Reply ?r) ready_app) = idle"
    by blast
  from 1 2 m p show ?thesis by blast
qed

text \<open>
  Claim C6, amended. Whenever plan generation fails with a thrown error, which happens
  exactly when the plan call itself fails or an array literal is found in the reply and
  fails to parse, the error message is set, the step list stays empty, the planning flag
  is cleared and the executing flag is untouched: an idle state returns to idle and no
  execution starts.
\<close>

theorem plan_failure_surfaced:
  "(generateWorkflowPlan json_parse reply = Inl e \<and> files st \<noteq> []
      \<longrightarrow> error (handleCreateWorkflow new_id json_parse reply st)
            = Some ''Failed to generate a workflow. Please check your API key or try again.''
          \<and> workflowSteps (handleCreateWorkflow new_id json_parse reply st) = []
          \<and> \<not> isAnalyzing (agentState (handleCreateWorkflow new_id json_parse reply st))
          \<and> isExecuting (agentState (handleCreateWorkflow new_id json_parse reply st))
              = isExecuting (agentState st)
          \<and> (agentState st = idle
              \<longrightarrow> agentState (handleCreateWorkflow new_id json_parse reply st) = idle))
   \<and> ((\<exists>e. generateWorkflowPlan json_parse reply = Inl e)
        \<longleftrightarrow> (\<exists>t. reply = CallFails t)
            \<or> (\<exists>response m. reply = Reply response \<and> array_match response = Some m
                  \<and> json_parse m = None))
   \<and> (array_match response = None
        \<longrightarrow> generateWorkflowPlan json_parse (Reply response)
              = Inr [''Failed to generate plan.''])"
proof (intro conjI impI)
  assume "array_match response = None"
  then show "generateWorkflowPlan json_parse (Reply response) = Inr [''Failed to generate plan.'']"
    by (simp add: generateWorkflowPlan_def)
next
  assume "generateWorkflowPlan json_parse reply = Inl e \<and> files st \<noteq> []"
  then have t: "generateWorkflowPlan json_parse reply = Inl e" and f: "files st \<noteq> []"
    by simp_all
  note r = handleCreateWorkflow_throw [OF t f, of new_id]
  from r(1) show "error (handleCreateWorkflow new_id json_parse reply st)
            = Some ''Failed to generate a workflow. Please check your API key or try again.''" .
  from r(2) show "workflowSteps (handleCreateWorkflow new_id json_parse reply st) = []" .
  from r(3) show "\<not> isAnalyzing (agentState (handleCreateWorkflow new_id json_parse reply st))"
    by simp
  from r(3) show "isExecuting (agentState (handleCreateWorkflow new_id json_parse reply st))
              = isExecuting (agentState st)"
    by simp
  assume "agentState st = idle"
  with r(3) show "agentState (handleCreateWorkflow new_id json_parse reply st) = idle"
    by (simp add: idle_stays_idle)
next
  show "(\<exists>e. generateWorkflowPlan json_parse reply = Inl e)
        \<longleftrightarrow> (\<exists>t. reply = CallFails t)
            \<or> (\<exists>response m. reply = Reply response \<and> array_match response = Some m
                  \<and> json_parse m = None)"
    by (rule generateWorkflowPlan_throws_iff)
qed

text \<open>
  The claim as stated fails for a reply without an array literal: the generator returns
  its fallback plan, no error message is set, one Pending step is created from the
  fallback text and the executing flag is raised.
\<close>

theorem plan_fallback_is_run:
  "array_match ''Sorry, no plan.'' = None
   \<and> error (handleCreateWorkflow example_id json_parse_strings (Reply ''Sorry, no plan.'')
        ready_app) = None
   \<and> workflowSteps (handleCreateWorkflow example_id json_parse_strings
        (Reply ''Sorry, no plan.'') ready_app)
      = [\<lparr>step_id = ''x'', description = ''Failed to generate plan.'', status = PENDING,
          result = None, step_thinking = None\<rparr>]
   \<and> isExecuting (agentState (handleCreateWorkflow example_id json_parse_strings
        (Reply ''Sorry, no plan.'') ready_app))"
  by (simp add: array_match_def handleCreateWorkflow_def handleCreateWorkflow_begin_def
      handleCreateWorkflow_end_def generateWorkflowPlan_def ready_app_def idle_def
      newSteps_def example_id_def)

theorem plan_failure_surfaced_witness:
  "generateWorkflowPlan json_parse_strings (CallFails (Error ''401 Unauthorized''))
      = Inl (CallError (Error ''401 Unauthorized''))
   \<and> files ready_app \<noteq> []
   \<and> agentState ready_app = idle
   \<and> error (handleCreateWorkflow example_id json_parse_strings
        (CallFails (Error ''401 Unauthorized'')) ready_app)
      = Some ''Failed to generate a workflow. Please check your API key or try again.''
   \<and> workflowSteps (handleCreateWorkflow example_id json_parse_strings
        (CallFails (Error ''401 Unauthorized'')) ready_app) = []
   \<and> agentState (handleCreateWorkflow example_id json_parse_strings
        (CallFails (Error ''401 Unauthorized'')) ready_app) = idle
   \<and> array_match ''Sorry, no plan.'' = None
   \<and> generateWorkflowPlan json_parse_strings (Reply ''Sorry, no plan.'')
        = Inr [''Failed to generate plan.'']"
proof -
  have n: "array_match ''Sorry, no plan.'' = None"
    by (simp add: array_match_def)
  from plan_failure_surfaced [where json_parse = json_parse_strings
      and response = "''Sorry, no plan.''"] n
  have 0: "generateWorkflowPlan json_parse_strings (Reply ''Sorry, no plan.'')
        = Inr [''Failed to generate plan.'']" by blast
  have t: "generateWorkflowPlan json_parse_strings (CallFails (Error ''401 Unauthorized''))
      = Inl (CallError (Error ''401 Unauthorized''))"
    by (simp add: generateWorkflowPlan_def)
  have f: "files ready_app \<noteq> []" "agentState ready_app = idle"
    by (simp_all add: ready_app_def)
  from plan_failure_surfaced [where json_parse = json_parse_strings
      and reply = "CallFails (Error ''401 Unauthorized'')"
      and e = "CallError (Error ''401 Unauthorized'')" and st = ready_app
      and new_id = example_id] t f n 0
  show ?thesis by blast
qed

section \<open>The auto-executor\<close>

lemma two_step_plan_value:
  "two_step_plan = \<lparr>files = [()],
      workflowSteps = [\<lparr>step_id = ''x'', description = ''a'', status = PENDING,
                         result = None, step_thinking = None\<rparr>,
                       \<lparr>step_id = ''xx'', description = ''b'', status = PENDING,
                         result = None, step_thinking = None\<rparr>],
      agentState = \<lparr>isAnalyzing = False, isExecuting = True, currentStepId = None\<rparr>,
      error = None\<rparr>"
proof -
  have m: "array_match (''['' @ dquote @ ''a'' @ dquote @ '','' @ dquote @ ''b'' @ dquote @ '']'')
      = Some (''['' @ dquote @ ''a'' @ dquote @ '','' @ dquote @ ''b'' @ dquote @ '']'')"
    by (simp add: array_match_def dquote_def)
  have p: "json_parse_strings (''['' @ dquote @ ''a'' @ dquote @ '','' @ dquote @ ''b'' @ dquote @ '']'')
      = Some [''a'', ''b'']"
    by code_simp
  have g: "generateWorkflowPlan json_parse_strings
       (Reply (''['' @ dquote @ ''a'' @ dquote @ '','' @ dquote @ ''b'' @ dquote @ '']''))
      = Inr [''a'', ''b'']"
    unfolding generateWorkflowPlan_def by (simp only: m p plan_reply.case option.case)
  show ?thesis
    unfolding two_step_plan_def handleCreateWorkflow_def g
    by (simp add: handleCreateWorkflow_begin_def handleCreateWorkflow_end_def ready_app_def
        idle_def newSteps_def example_id_def)
qed

lemma after_first_effect:
  "statuses (run [EffectRuns] (start two_step_plan)) = [PROCESSING, PENDING]"
  by (simp add: two_step_plan_value start_def effect_runs_def mark_processing_def statuses_def Let_def)

text \<open>
  Claim C2, at the plan \<open>["a","b"]\<close>. The first run of the effect marks the first step
  Processing and awaits its call. That update installs a new step list, so the effect
  runs again while the call is awaited: the first Pending step is now the second one,
  which is marked Processing too, and a second call is awaited. The second step is
  Processing while the first one still is.
\<close>

theorem second_step_starts_early:
  "statuses (start two_step_plan) = [PENDING, PENDING]
   \<and> statuses (run [EffectRuns] (start two_step_plan)) = [PROCESSING, PENDING]
   \<and> statuses (run [EffectRuns, EffectRuns] (start two_step_plan)) = [PROCESSING, PROCESSING]
   \<and> map (description \<circ> target) (inflight (run [EffectRuns, EffectRuns] (start two_step_plan)))
        = [''a'', ''b'']
   \<and> map (\<lambda>st. (status st, result st))
        (workflowSteps (app (run [EffectRuns, EffectRuns,
            CallSettles 1 (Resolved \<lparr>out_result = ''done'', out_thinking = []\<rparr>)]
          (start two_step_plan))))
        = [(PROCESSING, None), (COMPLETED, Some ''done'')]"
  by (simp add: two_step_plan_value start_def effect_runs_def call_settles_def
      mark_processing_def mark_completed_def statuses_def Let_def)

lemma executor_never_rejects: "await_executeWorkflowStep stream \<noteq> Rejected"
  by (simp add: await_executeWorkflowStep_def)

lemma executor_on_error:
  "failure stream = Some e \<Longrightarrow> executeWorkflowStep stream
     = \<lparr>out_result = ''Error executing step: ''
          @ (case e of Error m \<Rightarrow> m | Thrown \<Rightarrow> ''Unknown error''), out_thinking = []\<rparr>"
  by (simp add: executeWorkflowStep_def)

text \<open>
  Claim C1, at a model call that throws. The executor returns the synthetic result, with
  empty thinking and the error message as content, and its promise is resolved; so the
  loop takes the branch of a successful call: the step is marked Completed with the
  error message as its result, the executing flag stays raised, and the next run of the
  effect starts the next step.
\<close>

theorem model_error_marks_completed:
  "await_executeWorkflowStep \<lparr>deltas = ds, failure = Some (Error msg)\<rparr>
     = Resolved \<lparr>out_result = ''Error executing step: '' @ msg, out_thinking = []\<rparr>
   \<and> await_executeWorkflowStep \<lparr>deltas = ds, failure = Some Thrown\<rparr>
     = Resolved \<lparr>out_result = ''Error executing step: Unknown error'', out_thinking = []\<rparr>
   \<and> await_executeWorkflowStep failing_stream
     = Resolved \<lparr>out_result = ''Error executing step: network down'', out_thinking = []\<rparr>
   \<and> workflowSteps (app (run [EffectRuns, CallSettles 0 (await_executeWorkflowStep failing_stream)]
        (start two_step_plan)))
     = [\<lparr>step_id = ''x'', description = ''a'', status = COMPLETED,
          result = Some ''Error executing step: network down'', step_thinking = Some []\<rparr>,
        \<lparr>step_id = ''xx'', description = ''b'', status = PENDING,
          result = None, step_thinking = None\<rparr>]
   \<and> isExecuting (agentState (app (run [EffectRuns,
        CallSettles 0 (await_executeWorkflowStep failing_stream)] (start two_step_plan))))
   \<and> statuses (run [EffectRuns, CallSettles 0 (await_executeWorkflowStep failing_stream),
        EffectRuns] (start two_step_plan)) = [COMPLETED, PROCESSING]"
  by (simp add: two_step_plan_value start_def effect_runs_def call_settles_def
      mark_processing_def mark_completed_def statuses_def await_executeWorkflowStep_def
      executeWorkflowStep_def failing_stream_def Let_def)

lemma findIndex_first:
  "findIndex P xs = Some i \<Longrightarrow> i < length xs \<and> P (xs ! i) \<and> (\<forall>j<i. \<not> P (xs ! j))"
proof (induction xs arbitrary: i)
  case Nil
  then show ?case by simp
next
  case (Cons x xs)
  show ?case
  proof (cases "P x")
    case True
    with Cons.prems show ?thesis by simp
  next
    case False
    with Cons.prems obtain k where k: "findIndex P xs = Some k" "i = Suc k" by auto
    from Cons.IH [OF k(1)] False k(2) show ?thesis
      by (auto simp: less_Suc_eq_0_disj)
  qed
qed

lemma fire_length:
  "length (workflowSteps (app (fire e s))) = length (workflowSteps (app s))"
  by (cases e)
    (auto simp: effect_runs_def call_settles_def Let_def mark_processing_def
      mark_completed_def mark_failed_def split: option.splits call_outcome.splits)

lemma fire_halted: "halted s \<Longrightarrow> halted (fire e s)"
  by (cases e)
    (auto simp: halted_def effect_runs_def call_settles_def Let_def
      split: option.splits call_outcome.splits)

lemma fire_halted_processing:
  assumes "halted s" and "i < length (workflowSteps (app s))"
    and "status (workflowSteps (app (fire e s)) ! i) = PROCESSING"
  shows "status (workflowSteps (app s) ! i) = PROCESSING"
proof (cases e)
  case EffectRuns
  with assms show ?thesis by (simp add: halted_def effect_runs_def)
next
  case (CallSettles k outcome)
  with assms show ?thesis
    by (cases outcome)
      (auto simp: call_settles_def Let_def mark_completed_def mark_failed_def
        split: if_splits)
qed

lemma fire_failed_halted:
  assumes "has_failed s \<longrightarrow> halted s"
  shows "has_failed (fire e s) \<longrightarrow> halted (fire e s)"
proof (cases e)
  case EffectRuns
  show ?thesis
  proof (cases "halted s")
    case True
    then show ?thesis using fire_halted by blast
  next
    case False
    with assms have nf: "\<forall>st \<in> set (workflowSteps (app s)). status st \<noteq> FAILED"
      by (auto simp: has_failed_def)
    show ?thesis
    proof (cases "findIndex (\<lambda>st. status st = PENDING) (workflowSteps (app s))")
      case None
      with EffectRuns show ?thesis by (simp add: halted_def effect_runs_def Let_def)
    next
      case (Some i)
      with EffectRuns False nf have "\<not> has_failed (fire e s)"
        by (auto simp: has_failed_def halted_def effect_runs_def Let_def mark_processing_def)
      then show ?thesis by simp
    qed
  qed
next
  case (CallSettles k outcome)
  show ?thesis
  proof (cases outcome)
    case (Resolved out)
    have "has_failed (call_settles k (Resolved out) s) \<Longrightarrow> has_failed s"
      by (auto simp: has_failed_def call_settles_def Let_def mark_completed_def
          split: if_splits)
    moreover have "halted s \<Longrightarrow> halted (call_settles k (Resolved out) s)"
      using fire_halted [of s "CallSettles k (Resolved out)"] by simp
    ultimately show ?thesis using assms CallSettles Resolved by auto
  next
    case Rejected
    have "halted s \<Longrightarrow> halted (call_settles k Rejected s)"
      using fire_halted [of s "CallSettles k Rejected"] by simp
    moreover have "has_failed (call_settles k Rejected s) \<Longrightarrow> \<not> halted (call_settles k Rejected s)
        \<Longrightarrow> has_failed s"
      by (auto simp: has_failed_def halted_def call_settles_def Let_def split: if_splits)
    ultimately show ?thesis using assms CallSettles Rejected by auto
  qed
qed

lemma run_failed_halted:
  "has_failed s \<longrightarrow> halted s \<Longrightarrow> has_failed (run evs s) \<longrightarrow> halted (run evs s)"
  by (induction evs arbitrary: s) (simp_all add: fire_failed_halted)

lemma run_length:
  "length (workflowSteps (app (run evs s))) = length (workflowSteps (app s))"
  by (induction evs arbitrary: s) (simp_all add: fire_length)

lemma run_halted: "halted s \<Longrightarrow> halted (run evs s)"
  by (induction evs arbitrary: s) (simp_all add: fire_halted)

lemma run_halted_processing:
  "halted s \<Longrightarrow> i < length (workflowSteps (app s))
    \<Longrightarrow> status (workflowSteps (app (run evs s)) ! i) = PROCESSING
    \<Longrightarrow> status (workflowSteps (app s) ! i) = PROCESSING"
proof (induction evs arbitrary: s)
  case Nil
  then show ?case by simp
next
  case (Cons e evs)
  have "status (workflowSteps (app (fire e s)) ! i) = PROCESSING"
    using Cons.IH [of "fire e s"] Cons.prems by (simp add: fire_halted fire_length)
  with Cons.prems show ?case using fire_halted_processing by blast
qed

lemma start_no_failed:
  "\<forall>st \<in> set (workflowSteps a). status st = PENDING \<Longrightarrow> \<not> has_failed (start a)"
  by (auto simp: has_failed_def start_def)

text \<open>
  Claim C3. In a run that starts from a plan whose steps are all Pending, once a step
  is Failed the executing flag is down and stays down, a run of the effect changes
  nothing, and no step that is Pending then is Processing in any later state.
\<close>

theorem halt_on_failure:
  assumes "\<forall>st \<in> set (workflowSteps a). status st = PENDING"
    and "s = run evs (start a)"
    and "\<exists>st \<in> set (workflowSteps (app s)). status st = FAILED"
  shows "\<not> isExecuting (agentState (app (run evs' s)))
    \<and> (\<forall>i < length (workflowSteps (app s)).
          status (workflowSteps (app s) ! i) = PENDING
          \<longrightarrow> status (workflowSteps (app (run evs' s)) ! i) \<noteq> PROCESSING)
    \<and> run (EffectRuns # evs') s = run evs' s"
proof -
  from assms(1) have "has_failed (start a) \<longrightarrow> halted (start a)"
    using start_no_failed by blast
  then have "has_failed s \<longrightarrow> halted s"
    unfolding assms(2) by (rule run_failed_halted)
  with assms(3) have h: "halted s" by (simp add: has_failed_def)
  then have 1: "\<not> isExecuting (agentState (app (run evs' s)))"
    using run_halted [of s evs'] by (simp add: halted_def)
  have 2: "\<forall>i < length (workflowSteps (app s)).
          status (workflowSteps (app s) ! i) = PENDING
          \<longrightarrow> status (workflowSteps (app (run evs' s)) ! i) \<noteq> PROCESSING"
    using run_halted_processing [OF h] by fastforce
  from h have 3: "run (EffectRuns # evs') s = run evs' s"
    by (simp add: halted_def effect_runs_def)
  from 1 2 3 show ?thesis by blast
qed

theorem halt_on_failure_witness:
  "statuses (run [EffectRuns, CallSettles 0 Rejected] (start two_step_plan)) = [FAILED, PENDING]
   \<and> \<not> isExecuting (agentState (app (run [EffectRuns, EffectRuns, CallSettles 0 (Resolved
          \<lparr>out_result = ''done'', out_thinking = []\<rparr>)]
        (run [EffectRuns, CallSettles 0 Rejected] (start two_step_plan)))))
   \<and> statuses (run [EffectRuns, EffectRuns, CallSettles 0 (Resolved
          \<lparr>out_result = ''done'', out_thinking = []\<rparr>)]
        (run [EffectRuns, CallSettles 0 Rejected] (start two_step_plan))) = [FAILED, PENDING]"
proof -
  let ?evs = "[EffectRuns, CallSettles 0 Rejected]"
  let ?evs' = "[EffectRuns, EffectRuns, CallSettles 0 (Resolved
          \<lparr>out_result = ''done'', out_thinking = []\<rparr>)]"
  let ?s = "run ?evs (start two_step_plan)"
  have p: "\<forall>st \<in> set (workflowSteps two_step_plan). status st = PENDING"
    by (simp add: two_step_plan_value)
  have v: "workflowSteps (app ?s)
     = [\<lparr>step_id = ''x'', description = ''a'', status = FAILED,
          result = Some ''Failed to execute step.'', step_thinking = None\<rparr>,
        \<lparr>step_id = ''xx'', description = ''b'', status = PENDING,
          result = None, step_thinking = None\<rparr>]"
    by (simp add: two_step_plan_value start_def effect_runs_def call_settles_def
        mark_processing_def mark_failed_def Let_def)
  then have f: "\<exists>st \<in> set (workflowSteps (app ?s)). status st = FAILED" by simp
  from halt_on_failure [OF p refl f, of ?evs']
  have 1: "\<not> isExecuting (agentState (app (run ?evs' ?s)))" by blast
  have 2: "statuses (run ?evs' ?s) = [FAILED, PENDING]"
    by (simp add: two_step_plan_value start_def effect_runs_def call_settles_def
        mark_processing_def mark_failed_def mark_completed_def Let_def statuses_def)
  from v 1 2 show ?thesis by (simp add: statuses_def)
qed

end
